theory Spec2Isabelle
  imports Complex_Main "HOL-Library.Word"
begin

unbundle bit_operations_syntax

section \<open>Machine types of \<^verbatim>\<open>valhalla/midgard/encoded.h\<close>\<close>

text \<open>
  \<^verbatim>\<open>int\<close> and \<^verbatim>\<open>int32_t\<close> are 32-bit words: \<open>+\<close> and \<open>-\<close> wrap, \<open>push_bit\<close> is
  \<^verbatim>\<open><<\<close> (bits shifted beyond bit 31 are lost, the C++20 reading of a shift on a signed
  operand; a count of 32 or more, which the language leaves undefined, shifts every bit
  out), \<open>signed_drop_bit\<close> is \<^verbatim>\<open>>>\<close> on a signed operand, and comparisons of
  \<^verbatim>\<open>int\<close> values are the signed ones (\<open>\<le>s\<close>, \<open><s\<close>). The conversion of an
  \<^verbatim>\<open>unsigned int\<close> to \<^verbatim>\<open>int\<close> keeps the bits. A \<^verbatim>\<open>char\<close> is an 8-bit word.
  Whether \<^verbatim>\<open>char\<close> is a signed type is left to the platform by the language, so the
  conversion \<^verbatim>\<open>int32_t(*begin)\<close> takes the signedness as a parameter \<open>char_signed\<close>.
  A \<^verbatim>\<open>double\<close> is modelled as a real number: products are exact, where the source
  rounds each product to a \<^verbatim>\<open>double\<close>.
\<close>

type_synonym int32 = "32 word"
type_synonym cchar = "8 word"
type_synonym point = "real \<times> real"

definition char_to_int32 :: "bool \<Rightarrow> cchar \<Rightarrow> int32" where
  "char_to_int32 char_signed c = (if char_signed then scast c else ucast c)"

text \<open>\<^verbatim>\<open>static_cast<char>(n)\<close> for an \<^verbatim>\<open>int\<close>: the low eight bits.\<close>

definition int32_to_char :: "int32 \<Rightarrow> cchar" where
  "int32_to_char n = ucast n"

text \<open>\<^verbatim>\<open>round\<close> of \<^verbatim>\<open>cmath\<close>: to the nearest integer, halves away from zero.\<close>

definition round_c :: "real \<Rightarrow> real" where
  "round_c x = (if x < 0 then - of_int \<lfloor>- x + 1 / 2\<rfloor> else of_int \<lfloor>x + 1 / 2\<rfloor>)"

text \<open>\<^verbatim>\<open>static_cast<int>(x)\<close> for a \<^verbatim>\<open>double\<close>: truncation towards zero. The language
  defines the result only when the truncated value fits an \<^verbatim>\<open>int\<close>; the model reduces
  it modulo \<open>2^32\<close>, and the theorems on \<open>encode\<close> assume that it fits.\<close>

definition double_to_int :: "real \<Rightarrow> int32" where
  "double_to_int x = word_of_int (if x < 0 then \<lceil>x\<rceil> else \<lfloor>x\<rfloor>)"

text \<open>The exception thrown by \<^verbatim>\<open>Shape5Decoder::next\<close>:
  \<^verbatim>\<open>std::runtime_error("Bad encoded polyline")\<close>.\<close>

datatype error = runtime_error string

definition bad_encoded_polyline :: error where
  "bad_encoded_polyline = runtime_error ''Bad encoded polyline''"

section \<open>The encoder\<close>

text \<open>Line 206 of \<^verbatim>\<open>serialize\<close>:
  \<^verbatim>\<open>number = number < 0 ? ~(static_cast<unsigned int>(number) << 1) : (number << 1)\<close>.\<close>

definition zigzag :: "int32 \<Rightarrow> int32" where
  "zigzag number = (if number <s 0 then NOT (push_bit 1 number) else push_bit 1 number)"

text \<open>The \<^verbatim>\<open>while (number >= 0x20)\<close> loop of \<^verbatim>\<open>serialize\<close>, on the pair of the local
  \<open>number\<close> and the captured \<open>output\<close> string.\<close>

function serialize_loop :: "int32 \<Rightarrow> cchar list \<Rightarrow> int32 \<times> cchar list" where
  "serialize_loop number output =
     (if 0x20 \<le>s number
      then (let nextValue = (0x20 OR (number AND 0x1f)) + 63
            in serialize_loop (signed_drop_bit 5 number) (output @ [int32_to_char nextValue]))
      else (number, output))"
  by pat_completeness auto
termination
proof (relation "measure (\<lambda>(number, output). nat (sint number))")
  show "wf (measure (\<lambda>(number, output). nat (sint number)))"
    by simp
next
  fix number :: int32 and out :: "cchar list" and x :: int32
  assume "0x20 \<le>s number"
  then have "32 \<le> sint number"
    by (simp add: word_sle_eq)
  moreover have "sint (signed_drop_bit 5 number) = sint number div 32"
    by (simp add: sint_signed_drop_bit_eq drop_bit_eq_div)
  ultimately show "((signed_drop_bit 5 number, out @ [int32_to_char x]), (number, out))
      \<in> measure (\<lambda>(number, output). nat (sint number))"
    by simp
qed

definition serialize :: "int32 \<Rightarrow> cchar list \<Rightarrow> cchar list" where
  "serialize number output =
     (case serialize_loop (zigzag number) output of
        (number', output') \<Rightarrow> output' @ [int32_to_char (number' + 63)])"

text \<open>The \<^verbatim>\<open>for (const auto& p : points)\<close> loop of \<^verbatim>\<open>encode\<close>: \<open>p.first\<close> is the
  longitude and \<open>p.second\<close> the latitude. The capacity that \<^verbatim>\<open>output.reserve\<close> sets
  aside is no part of the string's value and is left out.\<close>

fun encode_loop :: "point list \<Rightarrow> int32 \<Rightarrow> int32 \<Rightarrow> int32 \<Rightarrow> cchar list \<Rightarrow> cchar list" where
  "encode_loop [] precision last_lon last_lat output = output"
| "encode_loop (p # points) precision last_lon last_lat output =
     (let lon' = double_to_int (round_c (fst p * real_of_int (sint precision)));
          lat' = double_to_int (round_c (snd p * real_of_int (sint precision)));
          output1 = serialize (lat' - last_lat) output;
          output2 = serialize (lon' - last_lon) output1
      in encode_loop points precision lon' lat' output2)"

definition encode :: "point list \<Rightarrow> int32 \<Rightarrow> cchar list" where
  "encode points precision = encode_loop points precision 0 0 []"

definition ENCODE_PRECISION :: int32 where
  "ENCODE_PRECISION = 1000000"

definition DECODE_PRECISION :: real where
  "DECODE_PRECISION = 1 / 1000000"

section \<open>The decoder\<close>

text \<open>The object state of \<^verbatim>\<open>Shape5Decoder\<close>. The two pointers are addresses into a memory
  \<open>mem\<close> of characters that the decoder does not own; \<open>mem\<close> is a parameter of every
  operation that reads through them.\<close>

record Shape5Decoder =
  begin_ptr :: nat
  end_ptr :: nat
  lat :: int32
  lon :: int32
  prec :: real

definition Shape5Decoder_init :: "nat \<Rightarrow> nat \<Rightarrow> real \<Rightarrow> Shape5Decoder" where
  "Shape5Decoder_init begin sz precision =
     \<lparr>begin_ptr = begin, end_ptr = begin + sz, lat = 0, lon = 0, prec = precision\<rparr>"

definition empty :: "Shape5Decoder \<Rightarrow> bool" where
  "empty shape = (begin_ptr shape = end_ptr shape)"

text \<open>The \<^verbatim>\<open>do ... while (byte >= 0x20)\<close> loop of \<^verbatim>\<open>next\<close>. It returns the cursor with
  the accumulated \<open>result\<close>, or with the exception. The loop leaves only through the
  emptiness test or a byte below \<open>0x20\<close>, so not returning is the value \<open>None\<close>. The
  count \<open>shift\<close> is a natural number.\<close>

partial_function (option) next_loop ::
  "bool \<Rightarrow> cchar list \<Rightarrow> nat \<Rightarrow> nat \<Rightarrow> nat \<Rightarrow> int32 \<Rightarrow> ((error + int32) \<times> nat) option" where
  "next_loop char_signed mem end begin shift result =
     (if begin = end then Some (Inl bad_encoded_polyline, begin)
      else if 0x20 \<le>s char_to_int32 char_signed (mem ! begin) - 63
      then next_loop char_signed mem end (begin + 1) (shift + 5)
             (result OR push_bit shift ((char_to_int32 char_signed (mem ! begin) - 63) AND 0x1f))
      else Some (Inr (result OR
             push_bit shift ((char_to_int32 char_signed (mem ! begin) - 63) AND 0x1f)), begin + 1))"

declare next_loop.simps [code]

text \<open>The last line of \<^verbatim>\<open>next\<close>: \<^verbatim>\<open>result & 1 ? ~(result >> 1) : (result >> 1)\<close>.\<close>

definition unzigzag :: "int32 \<Rightarrow> int32" where
  "unzigzag result =
     (if result AND 1 \<noteq> 0 then NOT (signed_drop_bit 1 result) else signed_drop_bit 1 result)"

definition next5 ::
  "bool \<Rightarrow> cchar list \<Rightarrow> Shape5Decoder \<Rightarrow> int32 \<Rightarrow> ((error + int32) \<times> Shape5Decoder) option" where
  "next5 char_signed mem shape previous =
     (case next_loop char_signed mem (end_ptr shape) (begin_ptr shape) 0 0 of
        None \<Rightarrow> None
      | Some (Inl e, begin') \<Rightarrow> Some (Inl e, shape\<lparr>begin_ptr := begin'\<rparr>)
      | Some (Inr result, begin') \<Rightarrow>
          Some (Inr (previous + unzigzag result), shape\<lparr>begin_ptr := begin'\<rparr>))"

definition pop ::
  "bool \<Rightarrow> cchar list \<Rightarrow> Shape5Decoder \<Rightarrow> ((error + point) \<times> Shape5Decoder) option" where
  "pop char_signed mem shape =
     (case next5 char_signed mem shape (lat shape) of
        None \<Rightarrow> None
      | Some (Inl e, shape1) \<Rightarrow> Some (Inl e, shape1)
      | Some (Inr v, shape1) \<Rightarrow>
          (case next5 char_signed mem (shape1\<lparr>lat := v\<rparr>) (lon shape1) of
             None \<Rightarrow> None
           | Some (Inl e, shape2) \<Rightarrow> Some (Inl e, shape2)
           | Some (Inr w, shape2) \<Rightarrow>
               Some (Inr (real_of_int (sint w) * prec shape2,
                          real_of_int (sint (lat shape2)) * prec shape2),
                     shape2\<lparr>lon := w\<rparr>)))"

text \<open>The \<^verbatim>\<open>while (!shape.empty()) c.emplace_back(shape.pop())\<close> loop shared by the two
  \<^verbatim>\<open>decode\<close> templates, over the container's own \<open>emplace_back\<close>. An exception leaves
  the function without the container.\<close>

partial_function (option) decode_loop ::
  "('c \<Rightarrow> point \<Rightarrow> 'c) \<Rightarrow> bool \<Rightarrow> cchar list \<Rightarrow> Shape5Decoder \<Rightarrow> 'c \<Rightarrow> (error + 'c) option" where
  "decode_loop emplace char_signed mem shape c =
     (if empty shape then Some (Inr c)
      else (case pop char_signed mem shape of
              None \<Rightarrow> None
            | Some (Inl e, shape') \<Rightarrow> Some (Inl e)
            | Some (Inr p, shape') \<Rightarrow> decode_loop emplace char_signed mem shape' (emplace c p)))"

declare decode_loop.simps [code]

text \<open>\<^verbatim>\<open>std::vector\<close>: the elements and the reserved capacity. \<open>reserve\<close> only ever
  raises the capacity; \<open>emplace_back\<close> on a full vector grows it by its size (at least
  one), as the GNU library does.\<close>

record 'a vector =
  elems :: "'a list"
  capacity :: nat

definition vector_empty :: "'a vector" where
  "vector_empty = \<lparr>elems = [], capacity = 0\<rparr>"

definition reserve :: "'a vector \<Rightarrow> nat \<Rightarrow> 'a vector" where
  "reserve c n = (if capacity c < n then c\<lparr>capacity := n\<rparr> else c)"

definition emplace_back :: "'a vector \<Rightarrow> 'a \<Rightarrow> 'a vector" where
  "emplace_back c x =
     \<lparr>elems = elems c @ [x],
      capacity = (if length (elems c) < capacity c then capacity c
                  else length (elems c) + max (length (elems c)) 1)\<rparr>"

text \<open>A container other than \<^verbatim>\<open>std::vector\<close> (a \<^verbatim>\<open>std::list\<close>, a \<^verbatim>\<open>std::deque\<close>): the
  sequence of its elements.\<close>

definition list_emplace_back :: "'a list \<Rightarrow> 'a \<Rightarrow> 'a list" where
  "list_emplace_back c x = c @ [x]"

text \<open>The specialisation of \<^verbatim>\<open>decode\<close> for \<^verbatim>\<open>std::vector\<close> (lines 129 to 141).\<close>

definition decode_vector ::
  "bool \<Rightarrow> cchar list \<Rightarrow> nat \<Rightarrow> nat \<Rightarrow> real \<Rightarrow> (error + point vector) option" where
  "decode_vector char_signed mem encoded len precision =
     decode_loop emplace_back char_signed mem (Shape5Decoder_init encoded len precision)
       (reserve vector_empty (len div 4))"

text \<open>The implementation of \<^verbatim>\<open>decode\<close> for the other containers (lines 144 to 155).\<close>

definition decode_nonvector ::
  "bool \<Rightarrow> cchar list \<Rightarrow> nat \<Rightarrow> nat \<Rightarrow> real \<Rightarrow> (error + point list) option" where
  "decode_nonvector char_signed mem encoded len precision =
     decode_loop list_emplace_back char_signed mem (Shape5Decoder_init encoded len precision) []"

text \<open>\<^verbatim>\<open>decode(const std::string& encoded, precision)\<close> into a vector: the memory is the
  string, \<^verbatim>\<open>encoded.c_str()\<close> its address 0.\<close>

definition decode :: "bool \<Rightarrow> cchar list \<Rightarrow> real \<Rightarrow> (error + point vector) option" where
  "decode char_signed encoded precision =
     decode_vector char_signed encoded 0 (length encoded) precision"

section \<open>Notions of the specification\<close>

text \<open>The wire format of one sample as the specification words it, on the zig-zagged
  value read as an unsigned magnitude: while the remaining magnitude is at least 32, emit
  \<^verbatim>\<open>(0x20 | (chunk & 0x1F)) + 63\<close> and shift right by 5; emit the final chunk as
  \<^verbatim>\<open>chunk + 63\<close>. The comparison is the unsigned one and the shift the logical one.\<close>

function varint5 :: "int32 \<Rightarrow> cchar list" where
  "varint5 n =
     (if 32 \<le> n then ucast ((0x20 OR (n AND 0x1f)) + 63) # varint5 (drop_bit 5 n)
      else [ucast (n + 63)])"
  by pat_completeness auto
termination
proof (relation "measure unat")
  show "wf (measure (unat :: int32 \<Rightarrow> nat))"
    by simp
next
  fix n :: int32
  assume "32 \<le> n"
  then have "32 \<le> unat n"
    by (simp add: word_le_nat_alt)
  moreover have "unat (drop_bit 5 n) = unat n div 32"
    by (simp add: drop_bit_eq_div unat_div)
  ultimately show "(drop_bit 5 n, n) \<in> measure unat"
    by simp
qed

declare varint5.simps [simp del]

text \<open>The number that the bytes of a sample carry: the 5-bit chunks \<open>(byte - 63) mod 32\<close>,
  the least significant chunk first.\<close>

fun chunk_value :: "cchar list \<Rightarrow> nat" where
  "chunk_value [] = 0"
| "chunk_value (b # bs) = (unat b - 63) mod 32 + 32 * chunk_value bs"

text \<open>The scaled coordinate of \<open>encode\<close>:
  \<^verbatim>\<open>static_cast<int>(round(static_cast<double>(x) * precision))\<close>. The source rounds the
  product to a \<^verbatim>\<open>double\<close> before \<^verbatim>\<open>round\<close> sees it and the model does not, so the two
  can differ where the exact product lies next to a half; they agree on the coordinates
  that are representable at the precision, whose product is a whole number.\<close>

definition scaled :: "int32 \<Rightarrow> real \<Rightarrow> int32" where
  "scaled precision x = double_to_int (round_c (x * real_of_int (sint precision)))"

text \<open>The encoder as the specification words it: every point contributes the sample of its
  latitude delta and then the sample of its longitude delta, each against the scaled
  coordinates of the point before it, the first against zero.\<close>

definition delta_samples :: "int32 \<times> int32 \<Rightarrow> int32 \<times> int32 \<Rightarrow> cchar list" where
  "delta_samples cur prev = serialize (snd cur - snd prev) [] @ serialize (fst cur - fst prev) []"

definition encode_spec :: "point list \<Rightarrow> int32 \<Rightarrow> cchar list" where
  "encode_spec points precision =
     (let ps = map (\<lambda>p. (scaled precision (fst p), scaled precision (snd p))) points
      in concat (map2 delta_samples ps ((0, 0) # ps)))"






text \<open>A byte carries the continuation flag when the decoder's loop goes on after it:
  \<^verbatim>\<open>byte >= 0x20\<close> for \<^verbatim>\<open>byte = int32_t(c) - 63\<close>.\<close>

definition continuation :: "bool \<Rightarrow> cchar \<Rightarrow> bool" where
  "continuation char_signed c = (0x20 \<le>s char_to_int32 char_signed c - 63)"

text \<open>The number of complete samples of a buffer: a sample is a run of bytes with the
  continuation flag closed by one byte without it. \<open>None\<close> when the buffer ends inside a
  sample.\<close>

fun sample_count :: "bool \<Rightarrow> cchar list \<Rightarrow> nat option" where
  "sample_count char_signed [] = Some 0"
| "sample_count char_signed (c # cs) =
     (if continuation char_signed c
      then (if cs = [] then None else sample_count char_signed cs)
      else map_option Suc (sample_count char_signed cs))"

text \<open>The states a decoder constructed over \<open>sz\<close> bytes at \<open>start\<close> goes through: the
  constructed one, and the one any \<open>pop\<close> leaves, whether it returned or threw.\<close>

inductive reachable ::
  "bool \<Rightarrow> cchar list \<Rightarrow> nat \<Rightarrow> nat \<Rightarrow> real \<Rightarrow> Shape5Decoder \<Rightarrow> bool"
  for char_signed mem start sz precision where
    constructed: "reachable char_signed mem start sz precision (Shape5Decoder_init start sz precision)"
  | popped: "reachable char_signed mem start sz precision shape \<Longrightarrow>
       pop char_signed mem shape = Some (r, shape') \<Longrightarrow>
       reachable char_signed mem start sz precision shape'"

section \<open>Bits of the 32-bit words\<close>

lemma sless0_bit: "(d :: int32) <s 0 \<longleftrightarrow> bit d 31"
  using bit_last_iff [of d] by (simp add: word_sless_alt)

lemma sle_nonneg_bit: "(0x20 :: int32) \<le>s d \<Longrightarrow> \<not> bit d 31"
  using bit_last_iff [of d] by (simp add: word_sle_eq)

lemma and1_bit: "((w :: int32) AND 1 \<noteq> 0) \<longleftrightarrow> bit w 0"
  by (simp add: and_one_eq bit_0 mod_2_eq_odd)

lemma bit_times2: "bit (d * 2 :: int32) n = (n < 32 \<and> n \<noteq> 0 \<and> bit d (n - 1))"
  using bit_double_iff [of d n] by (simp add: mult.commute possible_bit_word)

lemma small_bits:
  fixes d :: int32
  assumes "- (2 ^ 30) \<le> sint d" "sint d < 2 ^ 30"
  shows "bit d 30 = bit d 31"
proof -
  have "signed_take_bit 30 (sint d) = sint d"
    using assms by (simp add: signed_take_bit_int_eq_self)
  then have "bit (sint d) 31 = bit (signed_take_bit 30 (sint d)) 31"
    by simp
  also have "\<dots> = bit (sint d) 30"
    by (simp add: bit_signed_take_bit_iff)
  finally show ?thesis
    by (simp add: bit_sint_iff)
qed

lemma unzigzag_zigzag_bits:
  fixes d :: int32
  assumes "bit d 30 = bit d 31"
  shows "unzigzag (zigzag d) = d"
proof (cases "bit d 31")
  case True
  have a: "bit (NOT (push_bit 1 d)) 0"
    by (simp add: bit_simps bit_times2)
  have "NOT (signed_drop_bit 1 (NOT (push_bit 1 d))) = d"
  proof (rule bit_word_eqI)
    fix n assume "n < LENGTH(32)"
    then have "n < 31 \<or> n = 31" by auto
    then show "bit (NOT (signed_drop_bit 1 (NOT (push_bit 1 d)))) n = bit d n"
      using assms True by (auto simp add: bit_simps bit_times2)
  qed
  then show ?thesis using True a by (simp add: zigzag_def unzigzag_def sless0_bit and1_bit)
next
  case False
  have a: "\<not> bit ((push_bit 1 d)) 0"
    by (simp add: bit_simps bit_times2)
  have "(signed_drop_bit 1 ((push_bit 1 d))) = d"
  proof (rule bit_word_eqI)
    fix n assume "n < LENGTH(32)"
    then have "n < 31 \<or> n = 31" by auto
    then show "bit ( (signed_drop_bit 1 ( (push_bit 1 d)))) n = bit d n"
      using assms False by (auto simp add: bit_simps bit_times2)
  qed
  then show ?thesis using False a by (simp add: zigzag_def unzigzag_def sless0_bit and1_bit)
qed

lemma zigzag_nonneg:
  fixes d :: int32
  assumes "bit d 30 = bit d 31"
  shows "\<not> bit (zigzag d) 31"
  using assms by (auto simp add: zigzag_def sless0_bit bit_simps bit_times2)

lemma upper_bits_clear:
  fixes w :: int32
  assumes "w < 2 ^ m" and "bit w k"
  shows "k < m"
proof -
  have "w AND mask m = w"
    using assms(1) by (rule less_mask_eq)
  then have "bit (w AND mask m) k"
    using assms(2) by simp
  then show ?thesis
    by (simp add: bit_and_iff bit_mask_iff)
qed


section \<open>The encoder's samples\<close>

lemma serialize_loop_append:
  "serialize_loop n (out1 @ out2) = (case serialize_loop n out2 of (n', out') \<Rightarrow> (n', out1 @ out'))"
proof (induction n out2 arbitrary: out1 rule: serialize_loop.induct)
  case (1 number out2)
  show ?case
  proof (cases "0x20 \<le>s number")
    case True
    then show ?thesis
      using "1.IH" [OF True refl, of out1]
      by (subst serialize_loop.simps, subst (2) serialize_loop.simps) (simp add: Let_def)
  next
    case False
    then show ?thesis
      by (subst serialize_loop.simps, subst (2) serialize_loop.simps) simp
  qed
qed

lemma serialize_append: "serialize d out = out @ serialize d []"
  using serialize_loop_append [of "zigzag d" out "[]"]
  by (simp add: serialize_def split: prod.splits)

lemma nonneg_sint_uint: "\<not> bit (n :: int32) 31 \<Longrightarrow> sint n = uint n"
proof -
  assume a: "\<not> bit n 31"
  have "sint n = signed_take_bit 31 (uint n)"
    by (simp add: sint_uint)
  also have "\<dots> = uint n"
  proof (rule bit_eqI)
    fix k
    have "bit n k \<Longrightarrow> k < 31"
      using a bit_imp_le_length [of n k] by (cases "k = 31") auto
    then show "bit (signed_take_bit 31 (uint n)) k = bit (uint n) k"
      using a by (auto simp add: bit_simps bit_uint_iff min_def)
  qed
  finally show ?thesis .
qed

lemma sle32_nonneg: "\<not> bit (n :: int32) 31 \<Longrightarrow> (0x20 \<le>s n) = (32 \<le> n)"
  by (simp add: word_sle_eq nonneg_sint_uint word_le_def)

lemma sle32_imp: "(0x20 :: int32) \<le>s n \<Longrightarrow> 32 \<le> n"
  using sle32_nonneg sle_nonneg_bit by blast

lemma sdrop_nonneg: "\<not> bit (n :: int32) 31 \<Longrightarrow> signed_drop_bit 5 n = drop_bit 5 n"
proof (rule bit_word_eqI)
  fix k
  assume a: "\<not> bit n 31" and "k < LENGTH(32)"
  have "\<not> bit n (5 + k)" if "27 \<le> k"
    using a that bit_imp_le_length [of n "5 + k"] by auto
  then show "bit (signed_drop_bit 5 n) k = bit (drop_bit 5 n) k"
    using a by (auto simp add: bit_simps)
qed

lemma drop_nonneg: "\<not> bit (drop_bit 5 (n :: int32)) 31"
  using bit_imp_le_length [of n 36] by (auto simp add: bit_simps)

lemma serialize_loop_varint5:
  "\<not> bit n 31 \<Longrightarrow>
   (case serialize_loop n out of (n', out') \<Rightarrow> out' @ [int32_to_char (n' + 63)]) = out @ varint5 n"
proof (induction n out rule: serialize_loop.induct)
  case (1 number out)
  show ?case
  proof (cases "0x20 \<le>s number")
    case True
    have "\<not> bit (signed_drop_bit 5 number) 31"
      using "1.prems" by (simp add: sdrop_nonneg drop_nonneg)
    from "1.IH" [OF True refl this] True "1.prems" show ?thesis
      by (subst serialize_loop.simps, subst varint5.simps)
         (simp add: Let_def sle32_nonneg sdrop_nonneg int32_to_char_def)
  next
    case False
    then show ?thesis
      using "1.prems"
      by (subst serialize_loop.simps, subst varint5.simps)
         (simp add: sle32_nonneg int32_to_char_def)
  qed
qed

lemma serialize_varint5:
  "\<not> bit (zigzag d) 31 \<Longrightarrow> serialize d out = out @ varint5 (zigzag d)"
  using serialize_loop_varint5 [of "zigzag d" out] by (simp add: serialize_def)

lemma and31_le: "(n :: int32) AND 0x1f \<le> 0x1f"
  by (rule word_and_le1)

lemma bit_32_iff: "bit (0x20 :: int32) k \<longleftrightarrow> k = 5"
  using bit_push_bit_iff [of 5 "1 :: int32" k] by (auto simp add: bit_simps)

lemma or32_add: "(t :: int32) \<le> 0x1f \<Longrightarrow> 0x20 OR t = t + 0x20"
proof -
  assume a: "t \<le> 0x1f"
  have "t < 2 ^ 5"
    using a by simp unat_arith
  then have b: "\<not> bit t 5"
    using upper_bits_clear [of t 5 5] by auto
  have "0x20 + t = 0x20 OR t"
    by (rule disjunctive_add) (use b bit_32_iff in auto)
  then show ?thesis by (simp add: add.commute)
qed




lemma bit_31_iff: "bit (0x1f :: int32) k \<longleftrightarrow> k < 5"
proof -
  have "bit (mask 5 :: int32) k \<longleftrightarrow> k < 5"
    by (auto simp add: bit_mask_iff)
  moreover have "(mask 5 :: int32) = 0x1f"
    by (simp add: mask_eq_decr_exp)
  ultimately show ?thesis
    by (simp only:)
qed

lemma bit_int_31_iff: "bit (31 :: int) k \<longleftrightarrow> k < 5"
proof -
  have "bit (mask 5 :: int) k \<longleftrightarrow> k < 5"
    by (auto simp add: bit_mask_iff)
  moreover have "(mask 5 :: int) = 31"
    by (simp add: mask_eq_exp_minus_1)
  ultimately show ?thesis
    by (simp only:)
qed

lemma bit_int_32_iff: "bit (32 :: int) k \<longleftrightarrow> k = 5"
  using bit_exp_iff [where ?'a = int, of 5 k] by simp

lemma unat_add_small:
  fixes t c :: int32
  assumes "t \<le> 0x1f" and "c \<le> 1000"
  shows "unat (t + c) = unat t + unat c"
proof -
  have "unat t \<le> 31" "unat c \<le> 1000"
    using assms by (simp_all add: word_le_nat_alt)
  then have "unat t + unat c < 2 ^ LENGTH(32)"
    by simp
  then show ?thesis
    by (rule unat_add_lem [THEN iffD1])
qed

lemma cont_byte_facts:
  fixes n :: int32
  defines "w \<equiv> (0x20 OR (n AND 0x1f)) + 63"
  shows "w < 128" "95 \<le> w" "w - 63 = 0x20 OR (n AND 0x1f)"
    "0x20 \<le>s 0x20 OR (n AND 0x1f)" "(0x20 OR (n AND 0x1f)) AND 0x1f = n AND 0x1f"
proof -
  define t where "t = n AND 0x1f"
  have t: "t \<le> 0x1f" unfolding t_def by (rule and31_le)
  then have t': "unat t \<le> 31"
    by (simp add: word_le_nat_alt)
  have w: "w = t + 95"
    unfolding w_def t_def [symmetric] using or32_add [OF t] by simp
  show "w < 128"
    using t' unat_add_small [OF t, of 95] by (simp add: w word_less_nat_alt)
  show "95 \<le> w"
    using t' unat_add_small [OF t, of 95] by (simp add: w word_le_nat_alt)
  show "w - 63 = 0x20 OR (n AND 0x1f)" unfolding w_def by simp
  have u: "unat (t + 0x20) = unat t + 32"
    using unat_add_small [OF t, of 32] by simp
  have "t + 0x20 < 2 ^ 7"
    using t' u by (simp add: word_less_nat_alt)
  then have nn: "\<not> bit (t + 0x20) 31"
    using upper_bits_clear [of "t + 0x20" 7 31] by auto
  have "32 \<le> t + 0x20"
    using u by (simp add: word_le_nat_alt)
  then show "0x20 \<le>s 0x20 OR (n AND 0x1f)"
    using nn or32_add [OF t] by (simp add: sle32_nonneg t_def)
  show "(0x20 OR (n AND 0x1f)) AND 0x1f = n AND 0x1f"
    by (rule bit_word_eqI) (auto simp add: bit_simps bit_int_31_iff bit_int_32_iff)
qed

lemma last_byte_facts:
  fixes n :: int32
  assumes "\<not> 32 \<le> n"
  defines "w \<equiv> n + 63"
  shows "w < 128" "63 \<le> w" "w \<le> 94" "w - 63 = n" "\<not> 0x20 \<le>s n" "n AND 0x1f = n"
proof -
  have t: "n \<le> 0x1f"
    using assms(1) by (simp add: word_le_nat_alt)
  then have t': "unat n \<le> 31"
    by (simp add: word_le_nat_alt)
  show "w < 128"
    using t' unat_add_small [OF t, of 63] by (simp add: w_def word_less_nat_alt)
  show "63 \<le> w"
    using t' unat_add_small [OF t, of 63] by (simp add: w_def word_le_nat_alt)
  show "w \<le> 94"
    using t' unat_add_small [OF t, of 63] by (simp add: w_def word_le_nat_alt)
  show "w - 63 = n" by (simp add: w_def)
  have lt: "n < 2 ^ 5"
    using t' by (simp add: word_less_nat_alt)
  then have "\<not> bit n 31"
    using upper_bits_clear [of n 5 31] by auto
  then show "\<not> 0x20 \<le>s n"
    using assms(1) by (simp add: sle32_nonneg)
  show "n AND 0x1f = n"
    using less_mask_eq [OF lt] by (simp add: mask_eq_decr_exp)
qed

section \<open>The decoder on the encoder's samples\<close>



lemma varint5_length: "0 < length (varint5 n)"
  by (subst varint5.simps) simp


section \<open>The bytes of a sample\<close>

lemma unat_char_small:
  fixes w :: int32
  assumes "w < 128"
  shows "unat (int32_to_char w) = unat w"
proof -
  have "unat w < 128"
    using assms by (simp add: word_less_nat_alt)
  moreover have "unat (ucast w :: cchar) = take_bit 8 (unat w)"
    by (simp add: unsigned_ucast_eq)
  ultimately show ?thesis
    by (simp add: int32_to_char_def take_bit_nat_eq_self)
qed

lemma cont_byte_range:
  fixes n :: int32
  shows "95 \<le> int32_to_char ((0x20 OR (n AND 0x1f)) + 63)"
    and "int32_to_char ((0x20 OR (n AND 0x1f)) + 63) \<le> 126"
proof -
  define w where "w = (0x20 OR (n AND 0x1f)) + 63"
  have w: "w < 128" "95 \<le> w"
    unfolding w_def by (rule cont_byte_facts)+
  have t: "n AND 0x1f \<le> 0x1f" by (rule and31_le)
  have "w = (n AND 0x1f) + 95"
    unfolding w_def using or32_add [OF t] by simp
  then have "unat w = unat (n AND 0x1f) + 95"
    using unat_add_small [OF t, of 95] by simp
  moreover have "unat (n AND 0x1f) \<le> 31"
    using t by (simp add: word_le_nat_alt)
  ultimately have "95 \<le> unat w" "unat w \<le> 126"
    by simp_all
  then show "95 \<le> int32_to_char ((0x20 OR (n AND 0x1f)) + 63)"
    and "int32_to_char ((0x20 OR (n AND 0x1f)) + 63) \<le> 126"
    using unat_char_small [OF w(1)] by (simp_all add: word_le_nat_alt w_def)
qed

lemma last_byte_range:
  fixes n :: int32
  assumes "\<not> 32 \<le> n"
  shows "63 \<le> int32_to_char (n + 63)" and "int32_to_char (n + 63) \<le> 94"
proof -
  have "unat (int32_to_char (n + 63)) = unat (n + 63)"
    using last_byte_facts(1) [OF assms] by (rule unat_char_small)
  moreover have "63 \<le> unat (n + 63)" "unat (n + 63) \<le> 94"
    using last_byte_facts(2,3) [OF assms] by (simp_all add: word_le_nat_alt)
  ultimately show "63 \<le> int32_to_char (n + 63)" and "int32_to_char (n + 63) \<le> 94"
    by (simp_all add: word_le_nat_alt)
qed

lemma varint5_printable: "b \<in> set (varint5 n) \<Longrightarrow> 63 \<le> b \<and> b \<le> 126"
proof (induction n rule: varint5.induct)
  case (1 n)
  show ?case
  proof (cases "32 \<le> n")
    case True
    then have "b = int32_to_char ((0x20 OR (n AND 0x1f)) + 63) \<or> b \<in> set (varint5 (drop_bit 5 n))"
      using "1.prems" by (subst (asm) varint5.simps) (simp add: int32_to_char_def)
    then show ?thesis
    proof
      assume b: "b = int32_to_char ((0x20 OR (n AND 0x1f)) + 63)"
      have "(63 :: cchar) \<le> 95" by simp
      then show ?thesis
        using cont_byte_range [of n] unfolding b by (meson order_trans)
    next
      assume "b \<in> set (varint5 (drop_bit 5 n))"
      then show ?thesis by (rule "1.IH" [OF True])
    qed
  next
    case False
    then have b: "b = int32_to_char (n + 63)"
      using "1.prems" by (subst (asm) varint5.simps) (simp add: int32_to_char_def)
    have "(94 :: cchar) \<le> 126" by simp
    then show ?thesis
      using last_byte_range [OF False] unfolding b by (meson order_trans)
  qed
qed

section \<open>The number a sample carries\<close>

lemma unat_and31: "unat ((n :: int32) AND 0x1f) = unat n mod 32"
proof -
  have "(n AND 0x1f) = take_bit 5 n"
    by (simp add: take_bit_eq_mask mask_eq_decr_exp)
  then have "unat (n AND 0x1f) = take_bit 5 (unat n)"
    by (simp only: unsigned_take_bit_eq)
  then show ?thesis
    by (simp add: take_bit_eq_mod)
qed

lemma cont_byte_unat:
  "unat (int32_to_char ((0x20 OR ((n :: int32) AND 0x1f)) + 63)) = 95 + unat n mod 32"
proof -
  define w where "w = (0x20 OR (n AND 0x1f)) + 63"
  have w: "w < 128"
    unfolding w_def by (rule cont_byte_facts)
  have t: "n AND 0x1f \<le> 0x1f" by (rule and31_le)
  have "w = (n AND 0x1f) + 95"
    unfolding w_def using or32_add [OF t] by simp
  then have "unat w = unat (n AND 0x1f) + 95"
    using unat_add_small [OF t, of 95] by simp
  then show ?thesis
    using unat_char_small [OF w] by (simp add: w_def unat_and31)
qed

lemma last_byte_unat:
  assumes "\<not> 32 \<le> (n :: int32)"
  shows "unat (int32_to_char (n + 63)) = unat n + 63" and "unat n < 32"
proof -
  have t: "n \<le> 0x1f"
    using assms by (simp add: word_le_nat_alt)
  show "unat n < 32"
    using assms by (simp add: word_le_nat_alt)
  have "unat (int32_to_char (n + 63)) = unat (n + 63)"
    using last_byte_facts(1) [OF assms] by (rule unat_char_small)
  then show "unat (int32_to_char (n + 63)) = unat n + 63"
    using unat_add_small [OF t, of 63] by simp
qed

lemma chunk_value_varint5: "chunk_value (varint5 n) = unat n"
proof (induction n rule: varint5.induct)
  case (1 n)
  show ?case
  proof (cases "32 \<le> n")
    case True
    have "unat (drop_bit 5 n) = unat n div 32"
      by (simp add: drop_bit_eq_div unat_div)
    then show ?thesis
      using "1.IH" [OF True] True cont_byte_unat [of n]
      by (subst varint5.simps) (simp add: int32_to_char_def)
  next
    case False
    then show ?thesis
      using last_byte_unat [OF False]
      by (subst varint5.simps) (simp add: int32_to_char_def)
  qed
qed

lemma sint_not: "sint (NOT (w :: int32)) = - sint w - 1"
proof -
  have "sint (NOT w) = NOT (sint w)"
    by (rule bit_eqI) (auto simp add: bit_simps bit_sint_iff min_def)
  then show ?thesis
    by (simp add: not_int_def)
qed

lemma sint_double:
  fixes d :: int32
  assumes "- (2 ^ 30) \<le> sint d" and "sint d < 2 ^ 30"
  shows "sint (push_bit 1 d) = 2 * sint d"
proof -
  have "sint (d * 2) = signed_take_bit 31 (sint d * sint (2 :: int32))"
    using sint_word_ariths(3) [of d 2] by simp
  also have "\<dots> = signed_take_bit 31 (2 * sint d)"
    by (simp add: mult.commute)
  also have "\<dots> = 2 * sint d"
    using assms by (intro signed_take_bit_int_eq_self) simp_all
  finally show ?thesis
    by simp
qed

lemma zigzag_value:
  fixes d :: int32
  assumes "- (2 ^ 30) \<le> sint d" and "sint d < 2 ^ 30"
  shows "int (unat (zigzag d)) = (if sint d < 0 then - 2 * sint d - 1 else 2 * sint d)"
proof -
  have b: "bit d 30 = bit d 31"
    using assms by (rule small_bits)
  have "sint (zigzag d) = uint (zigzag d)"
    using zigzag_nonneg [OF b] by (rule nonneg_sint_uint)
  also have "\<dots> = int (unat (zigzag d))"
    by (rule uint_nat)
  finally have u: "int (unat (zigzag d)) = sint (zigzag d)"
    by (rule sym)
  have "sint (zigzag d) = (if sint d < 0 then - 2 * sint d - 1 else 2 * sint d)"
    unfolding zigzag_def word_sless_alt
    using sint_double [OF assms] sint_not [of "push_bit 1 d"] by simp
  then show ?thesis
    by (simp only: u)
qed

lemma varint5_flags:
  "(\<forall>b \<in> set (butlast (varint5 n)). 95 \<le> b \<and> b \<le> 126) \<and>
   63 \<le> last (varint5 n) \<and> last (varint5 n) \<le> 94"
proof (induction n rule: varint5.induct)
  case (1 n)
  show ?case
  proof (cases "32 \<le> n")
    case True
    have v: "varint5 n = int32_to_char ((0x20 OR (n AND 0x1f)) + 63) # varint5 (drop_bit 5 n)"
      using True by (subst varint5.simps) (simp add: int32_to_char_def)
    have ne: "varint5 (drop_bit 5 n) \<noteq> []"
      using varint5_length [of "drop_bit 5 n"] by auto
    show ?thesis
      using "1.IH" [OF True] cont_byte_range [of n] ne unfolding v by simp
  next
    case False
    have v: "varint5 n = [int32_to_char (n + 63)]"
      using False by (subst varint5.simps) (simp add: int32_to_char_def)
    show ?thesis
      using last_byte_range [OF False] unfolding v by simp
  qed
qed

section \<open>The decoder returns and stays inside its buffer\<close>

lemma next_loop_returns:
  "b \<le> e \<Longrightarrow>
   \<exists>r b'. next_loop cs mem e b sh res = Some (r, b') \<and> b' \<le> e \<and>
     (case r of Inl err \<Rightarrow> err = bad_encoded_polyline \<and> b' = e | Inr v \<Rightarrow> b < b')"
proof (induction "e - b" arbitrary: b sh res rule: less_induct)
  case less
  show ?case
  proof (cases "b = e")
    case True
    then show ?thesis
      by (subst next_loop.simps) simp
  next
    case False
    show ?thesis
    proof (cases "0x20 \<le>s char_to_int32 cs (mem ! b) - 63")
      case True
      have "e - (b + 1) < e - b" "b + 1 \<le> e"
        using False less.prems by simp_all
      from less.hyps [OF this]
      obtain r b' where
        "next_loop cs mem e (b + 1) (sh + 5)
           (res OR push_bit sh ((char_to_int32 cs (mem ! b) - 63) AND 0x1f)) = Some (r, b')"
        "b' \<le> e"
        "case r of Inl err \<Rightarrow> err = bad_encoded_polyline \<and> b' = e | Inr v \<Rightarrow> b + 1 < b'"
        by blast
      then show ?thesis
        using False True by (subst next_loop.simps) (auto split: sum.splits)
    next
      case nc: False
      then show ?thesis
        using \<open>b \<noteq> e\<close> less.prems by (subst next_loop.simps) simp
    qed
  qed
qed

lemma next_loop_all_continue:
  "b \<le> e \<Longrightarrow> (\<And>i. b \<le> i \<Longrightarrow> i < e \<Longrightarrow> continuation cs (mem ! i)) \<Longrightarrow>
   next_loop cs mem e b sh res = Some (Inl bad_encoded_polyline, e)"
proof (induction "e - b" arbitrary: b sh res rule: less_induct)
  case less
  show ?case
  proof (cases "b = e")
    case True
    then show ?thesis
      by (subst next_loop.simps) simp
  next
    case False
    then have c: "0x20 \<le>s char_to_int32 cs (mem ! b) - 63"
      using less.prems(1) less.prems(2) [of b] by (simp add: continuation_def)
    have "e - (b + 1) < e - b" "b + 1 \<le> e"
      using False less.prems by simp_all
    then have "next_loop cs mem e (b + 1) (sh + 5)
           (res OR push_bit sh ((char_to_int32 cs (mem ! b) - 63) AND 0x1f))
        = Some (Inl bad_encoded_polyline, e)"
      using less.prems(2) by (intro less.hyps) simp_all
    then show ?thesis
      using False c by (subst next_loop.simps) simp
  qed
qed

lemma next5_returns:
  assumes "begin_ptr shape \<le> end_ptr shape"
  shows "\<exists>r b'. next5 cs mem shape previous = Some (r, shape\<lparr>begin_ptr := b'\<rparr>) \<and> b' \<le> end_ptr shape \<and>
     (case r of Inl err \<Rightarrow> err = bad_encoded_polyline \<and> b' = end_ptr shape
      | Inr v \<Rightarrow> begin_ptr shape < b')"
proof -
  from next_loop_returns [OF assms, of cs mem 0 0]
  obtain r b' where
    "next_loop cs mem (end_ptr shape) (begin_ptr shape) 0 0 = Some (r, b')" "b' \<le> end_ptr shape"
    "case r of Inl err \<Rightarrow> err = bad_encoded_polyline \<and> b' = end_ptr shape
      | Inr v \<Rightarrow> begin_ptr shape < b'"
    by blast
  then show ?thesis
    by (cases r) (auto simp add: next5_def)
qed

lemma pop_returns:
  assumes "begin_ptr shape \<le> end_ptr shape"
  shows "\<exists>r shape'. pop cs mem shape = Some (r, shape') \<and>
     end_ptr shape' = end_ptr shape \<and> prec shape' = prec shape \<and>
     begin_ptr shape' \<le> end_ptr shape' \<and>
     (case r of Inl err \<Rightarrow> err = bad_encoded_polyline \<and> begin_ptr shape' = end_ptr shape
      | Inr p \<Rightarrow> begin_ptr shape + 2 \<le> begin_ptr shape')"
proof -
  from next5_returns [OF assms, of cs mem "lat shape"]
  obtain r1 b1 where n1:
    "next5 cs mem shape (lat shape) = Some (r1, shape\<lparr>begin_ptr := b1\<rparr>)" "b1 \<le> end_ptr shape"
    "case r1 of Inl err \<Rightarrow> err = bad_encoded_polyline \<and> b1 = end_ptr shape
      | Inr v \<Rightarrow> begin_ptr shape < b1"
    by blast
  show ?thesis
  proof (cases r1)
    case (Inl err)
    then show ?thesis
      using n1 by (simp add: pop_def)
  next
    case (Inr v)
    define shape1 where "shape1 = shape\<lparr>begin_ptr := b1, lat := v\<rparr>"
    have s1: "begin_ptr shape1 = b1" "end_ptr shape1 = end_ptr shape" "lat shape1 = v"
      "lon shape1 = lon shape" "prec shape1 = prec shape"
      by (simp_all add: shape1_def)
    have "begin_ptr shape1 \<le> end_ptr shape1"
      using n1(2) by (simp add: s1)
    from next5_returns [OF this, of cs mem "lon shape"]
    obtain r2 b2 where n2:
      "next5 cs mem shape1 (lon shape) = Some (r2, shape1\<lparr>begin_ptr := b2\<rparr>)"
      "b2 \<le> end_ptr shape1"
      "case r2 of Inl err \<Rightarrow> err = bad_encoded_polyline \<and> b2 = end_ptr shape1
        | Inr w \<Rightarrow> begin_ptr shape1 < b2"
      by blast
    have p: "shape\<lparr>begin_ptr := b1\<rparr>\<lparr>lat := v\<rparr> = shape1"
      by (simp add: shape1_def)
    show ?thesis
      using n1 n2 Inr by (cases r2) (auto simp add: pop_def p s1)
  qed
qed

lemma decode_loop_empty:
  "empty shape \<Longrightarrow> decode_loop emplace cs mem shape c = Some (Inr c)"
  by (subst decode_loop.simps) simp

lemma decode_loop_throw:
  "\<not> empty shape \<Longrightarrow> pop cs mem shape = Some (Inl e, shape') \<Longrightarrow>
   decode_loop emplace cs mem shape c = Some (Inl e)"
  by (subst decode_loop.simps) simp

lemma decode_loop_step:
  "\<not> empty shape \<Longrightarrow> pop cs mem shape = Some (Inr p, shape') \<Longrightarrow>
   decode_loop emplace cs mem shape c = decode_loop emplace cs mem shape' (emplace c p)"
  by (subst decode_loop.simps) simp

lemma decode_loop_returns:
  "begin_ptr shape \<le> end_ptr shape \<Longrightarrow>
   \<exists>r. decode_loop emplace cs mem shape c = Some r \<and>
     (case r of Inl err \<Rightarrow> err = bad_encoded_polyline | Inr c' \<Rightarrow> True)"
proof (induction "end_ptr shape - begin_ptr shape" arbitrary: shape c rule: less_induct)
  case less
  show ?case
  proof (cases "empty shape")
    case True
    then show ?thesis
      by (simp add: decode_loop_empty)
  next
    case False
    from pop_returns [OF less.prems, of cs mem]
    obtain r shape' where p: "pop cs mem shape = Some (r, shape')"
      "end_ptr shape' = end_ptr shape" "begin_ptr shape' \<le> end_ptr shape'"
      "case r of Inl err \<Rightarrow> err = bad_encoded_polyline \<and> begin_ptr shape' = end_ptr shape
        | Inr p \<Rightarrow> begin_ptr shape + 2 \<le> begin_ptr shape'"
      by blast
    show ?thesis
    proof (cases r)
      case (Inl err)
      then show ?thesis
        using p False by (simp add: decode_loop_throw)
    next
      case (Inr pt)
      then have "end_ptr shape' - begin_ptr shape' < end_ptr shape - begin_ptr shape"
        using p by simp
      from less.hyps [OF this p(3), of "emplace c pt"] show ?thesis
        using p(1) False Inr by (simp add: decode_loop_step)
    qed
  qed
qed

lemma decode_loop_containers:
  "begin_ptr shape \<le> end_ptr shape \<Longrightarrow>
   decode_loop list_emplace_back cs mem shape (elems v) =
     map_option (map_sum id elems) (decode_loop emplace_back cs mem shape v)"
proof (induction "end_ptr shape - begin_ptr shape" arbitrary: shape v rule: less_induct)
  case less
  show ?case
  proof (cases "empty shape")
    case True
    then show ?thesis
      by (simp add: decode_loop_empty)
  next
    case False
    from pop_returns [OF less.prems, of cs mem]
    obtain r shape' where p: "pop cs mem shape = Some (r, shape')"
      "end_ptr shape' = end_ptr shape" "begin_ptr shape' \<le> end_ptr shape'"
      "case r of Inl err \<Rightarrow> err = bad_encoded_polyline \<and> begin_ptr shape' = end_ptr shape
        | Inr p \<Rightarrow> begin_ptr shape + 2 \<le> begin_ptr shape'"
      by blast
    show ?thesis
    proof (cases r)
      case (Inl err)
      then show ?thesis
        using p False by (simp add: decode_loop_throw)
    next
      case (Inr pt)
      then have "end_ptr shape' - begin_ptr shape' < end_ptr shape - begin_ptr shape"
        using p by simp
      from less.hyps [OF this p(3), of "emplace_back v pt"] show ?thesis
        using p(1) False Inr
        by (simp add: decode_loop_step list_emplace_back_def emplace_back_def)
    qed
  qed
qed

lemma reachable_invariant:
  "reachable cs mem start sz precision shape \<Longrightarrow>
   begin_ptr shape \<le> end_ptr shape \<and> end_ptr shape = start + sz \<and> start \<le> begin_ptr shape"
proof (induction rule: reachable.induct)
  case constructed
  show ?case
    by (simp add: Shape5Decoder_init_def)
next
  case (popped shape r shape')
  then have le: "begin_ptr shape \<le> end_ptr shape"
    by simp
  from pop_returns [OF le, of cs mem] popped.hyps(2) le
  have "end_ptr shape' = end_ptr shape" "begin_ptr shape' \<le> end_ptr shape'"
    "begin_ptr shape \<le> begin_ptr shape'"
    by (auto split: sum.splits)
  then show ?case
    using popped.IH by simp
qed

lemma next_loop_cong:
  "b \<le> e \<Longrightarrow> (\<And>i. b \<le> i \<Longrightarrow> i < e \<Longrightarrow> mem' ! i = mem ! i) \<Longrightarrow>
   next_loop cs mem' e b sh res = next_loop cs mem e b sh res"
proof (induction "e - b" arbitrary: b sh res rule: less_induct)
  case less
  show ?case
  proof (cases "b = e")
    case True
    then show ?thesis
      by (subst next_loop.simps, subst (2) next_loop.simps) simp
  next
    case False
    then have m: "mem' ! b = mem ! b"
      using less.prems by simp
    have "e - (b + 1) < e - b" "b + 1 \<le> e"
      using False less.prems by simp_all
    then have "next_loop cs mem' e (b + 1) sh' res' = next_loop cs mem e (b + 1) sh' res'"
      for sh' res'
      using less.prems(2) by (intro less.hyps) simp_all
    then show ?thesis
      using False m by (subst next_loop.simps, subst (2) next_loop.simps) simp
  qed
qed

lemma next5_cong:
  "begin_ptr shape \<le> end_ptr shape \<Longrightarrow>
   (\<And>i. begin_ptr shape \<le> i \<Longrightarrow> i < end_ptr shape \<Longrightarrow> mem' ! i = mem ! i) \<Longrightarrow>
   next5 cs mem' shape previous = next5 cs mem shape previous"
  using next_loop_cong [of "begin_ptr shape" "end_ptr shape" mem' mem cs 0 0]
  by (simp add: next5_def)

lemma pop_cong:
  assumes le: "begin_ptr shape \<le> end_ptr shape"
    and eq: "\<And>i. begin_ptr shape \<le> i \<Longrightarrow> i < end_ptr shape \<Longrightarrow> mem' ! i = mem ! i"
  shows "pop cs mem' shape = pop cs mem shape"
proof -
  have n1: "next5 cs mem' shape (lat shape) = next5 cs mem shape (lat shape)"
    using le eq by (rule next5_cong)
  from next5_returns [OF le, of cs mem "lat shape"]
  obtain r1 b1 where r1:
    "next5 cs mem shape (lat shape) = Some (r1, shape\<lparr>begin_ptr := b1\<rparr>)" "b1 \<le> end_ptr shape"
    "case r1 of Inl err \<Rightarrow> err = bad_encoded_polyline \<and> b1 = end_ptr shape
      | Inr v \<Rightarrow> begin_ptr shape < b1"
    by blast
  show ?thesis
  proof (cases r1)
    case (Inl err)
    then show ?thesis
      using n1 r1 by (simp add: pop_def)
  next
    case (Inr v)
    define shape1 where "shape1 = shape\<lparr>begin_ptr := b1\<rparr>\<lparr>lat := v\<rparr>"
    have s1: "begin_ptr shape1 = b1" "end_ptr shape1 = end_ptr shape"
      by (simp_all add: shape1_def)
    have "next5 cs mem' shape1 (lon shape) = next5 cs mem shape1 (lon shape)"
      using r1(2,3) Inr eq by (intro next5_cong) (simp_all add: s1)
    then show ?thesis
      using n1 r1 Inr by (simp add: pop_def shape1_def)
  qed
qed

section \<open>Samples of a buffer\<close>

lemma next5_all_continue:
  assumes "begin_ptr shape \<le> end_ptr shape"
    and "\<And>i. begin_ptr shape \<le> i \<Longrightarrow> i < end_ptr shape \<Longrightarrow> continuation cs (mem ! i)"
  shows "next5 cs mem shape previous =
    Some (Inl bad_encoded_polyline, shape\<lparr>begin_ptr := end_ptr shape\<rparr>)"
  using next_loop_all_continue [OF assms, of 0 0] by (simp add: next5_def)

lemma pop_all_continue:
  assumes "begin_ptr shape \<le> end_ptr shape"
    and "\<And>i. begin_ptr shape \<le> i \<Longrightarrow> i < end_ptr shape \<Longrightarrow> continuation cs (mem ! i)"
  shows "pop cs mem shape = Some (Inl bad_encoded_polyline, shape\<lparr>begin_ptr := end_ptr shape\<rparr>)"
  using next5_all_continue [OF assms, of "lat shape"] by (simp add: pop_def)

lemma sample_count_last:
  "sample_count cs xs = Some n \<Longrightarrow> xs = [] \<or> \<not> continuation cs (last xs)"
  by (induction xs arbitrary: n) (auto split: if_splits)

lemma next_loop_sample:
  "b \<le> length mem \<Longrightarrow> next_loop cs mem (length mem) b sh res = Some (Inr v, b') \<Longrightarrow>
   b' \<le> length mem \<and>
   sample_count cs (drop b mem) = map_option Suc (sample_count cs (drop b' mem))"
proof (induction "length mem - b" arbitrary: b sh res rule: less_induct)
  case less
  have ne: "b \<noteq> length mem"
    using less.prems(2) by (subst (asm) next_loop.simps) (auto split: if_splits)
  then have lt: "b < length mem"
    using less.prems(1) by simp
  then have d: "drop b mem = mem ! b # drop (Suc b) mem"
    by (simp add: Cons_nth_drop_Suc)
  show ?case
  proof (cases "continuation cs (mem ! b)")
    case True
    then have c: "0x20 \<le>s char_to_int32 cs (mem ! b) - 63"
      by (simp add: continuation_def)
    have n: "next_loop cs mem (length mem) (b + 1) (sh + 5)
        (res OR push_bit sh ((char_to_int32 cs (mem ! b) - 63) AND 0x1f)) = Some (Inr v, b')"
      using less.prems(2) ne c by (subst (asm) next_loop.simps) simp
    have m: "length mem - (b + 1) < length mem - b" "b + 1 \<le> length mem"
      using lt by simp_all
    from less.hyps [OF m n]
    have ih: "b' \<le> length mem"
      "sample_count cs (drop (b + 1) mem) = map_option Suc (sample_count cs (drop b' mem))"
      by simp_all
    from next_loop_returns [OF m(2), of cs mem "sh + 5"
        "res OR push_bit sh ((char_to_int32 cs (mem ! b) - 63) AND 0x1f)"] n
    have "b + 1 < b'"
      by simp
    then have "drop (Suc b) mem \<noteq> []"
      using ih(1) by simp
    then show ?thesis
      using ih True by (simp add: d)
  next
    case False
    then have c: "\<not> 0x20 \<le>s char_to_int32 cs (mem ! b) - 63"
      by (simp add: continuation_def)
    have "b' = b + 1"
      using less.prems(2) ne c by (subst (asm) next_loop.simps) simp
    then show ?thesis
      using lt False by (simp add: d)
  qed
qed

lemma next5_sample:
  assumes "begin_ptr shape \<le> end_ptr shape" and "end_ptr shape = length mem"
    and "next5 cs mem shape previous = Some (Inr v, shape')"
  shows "begin_ptr shape' \<le> end_ptr shape' \<and> end_ptr shape' = length mem \<and>
    sample_count cs (drop (begin_ptr shape) mem) =
      map_option Suc (sample_count cs (drop (begin_ptr shape') mem))"
proof -
  from assms(3) obtain res b' where
    n: "next_loop cs mem (length mem) (begin_ptr shape) 0 0 = Some (Inr res, b')"
    and s: "shape' = shape\<lparr>begin_ptr := b'\<rparr>"
    by (auto simp add: next5_def assms(2) split: option.splits sum.splits)
  from next_loop_sample [OF _ n] assms(1,2) show ?thesis
    by (simp add: s)
qed

lemma pop_sample:
  assumes "begin_ptr shape \<le> end_ptr shape" and "end_ptr shape = length mem"
    and "pop cs mem shape = Some (Inr p, shape')"
  shows "begin_ptr shape' \<le> end_ptr shape' \<and> end_ptr shape' = length mem \<and>
    sample_count cs (drop (begin_ptr shape) mem) =
      map_option (\<lambda>n. Suc (Suc n)) (sample_count cs (drop (begin_ptr shape') mem))"
proof -
  from assms(3) obtain v shape1 w shape2 where
    n1: "next5 cs mem shape (lat shape) = Some (Inr v, shape1)"
    and n2: "next5 cs mem (shape1\<lparr>lat := v\<rparr>) (lon shape1) = Some (Inr w, shape2)"
    and s: "shape' = shape2\<lparr>lon := w\<rparr>"
    by (auto simp add: pop_def split: option.splits sum.splits)
  from next5_sample [OF assms(1,2) n1]
  have a: "begin_ptr shape1 \<le> end_ptr shape1" "end_ptr shape1 = length mem"
    "sample_count cs (drop (begin_ptr shape) mem) =
      map_option Suc (sample_count cs (drop (begin_ptr shape1) mem))"
    by simp_all
  from next5_sample [OF _ _ n2] a(1,2)
  have b: "begin_ptr shape2 \<le> end_ptr shape2" "end_ptr shape2 = length mem"
    "sample_count cs (drop (begin_ptr shape1) mem) =
      map_option Suc (sample_count cs (drop (begin_ptr shape2) mem))"
    by simp_all
  show ?thesis
    using a(3) b by (simp add: s option.map_comp comp_def)
qed

lemma decode_loop_samples:
  "begin_ptr shape \<le> end_ptr shape \<Longrightarrow> end_ptr shape = length mem \<Longrightarrow>
   decode_loop emplace_back cs mem shape c = Some (Inr c') \<Longrightarrow>
   sample_count cs (drop (begin_ptr shape) mem) = Some (2 * (length (elems c') - length (elems c)))
   \<and> length (elems c) \<le> length (elems c')"
proof (induction "end_ptr shape - begin_ptr shape" arbitrary: shape c rule: less_induct)
  case less
  show ?case
  proof (cases "empty shape")
    case True
    then show ?thesis
      using less.prems by (simp add: decode_loop_empty empty_def)
  next
    case False
    from pop_returns [OF less.prems(1), of cs mem]
    obtain r shape' where p: "pop cs mem shape = Some (r, shape')"
      "end_ptr shape' = end_ptr shape" "begin_ptr shape' \<le> end_ptr shape'"
      "case r of Inl err \<Rightarrow> err = bad_encoded_polyline \<and> begin_ptr shape' = end_ptr shape
        | Inr p \<Rightarrow> begin_ptr shape + 2 \<le> begin_ptr shape'"
      by blast
    show ?thesis
    proof (cases r)
      case (Inl err)
      then show ?thesis
        using p False less.prems(3) by (simp add: decode_loop_throw)
    next
      case (Inr pt)
      then have m: "end_ptr shape' - begin_ptr shape' < end_ptr shape - begin_ptr shape"
        using p by simp
      have d: "decode_loop emplace_back cs mem shape' (emplace_back c pt) = Some (Inr c')"
        using p(1) False Inr less.prems(3) by (simp add: decode_loop_step)
      from less.hyps [OF m p(3) _ d] p(2) less.prems(2)
      have ih: "sample_count cs (drop (begin_ptr shape') mem) =
          Some (2 * (length (elems c') - length (elems (emplace_back c pt))))"
        "length (elems (emplace_back c pt)) \<le> length (elems c')"
        by simp_all
      from pop_sample [OF less.prems(1,2)] p(1) Inr
      have "sample_count cs (drop (begin_ptr shape) mem) =
        map_option (\<lambda>n. Suc (Suc n)) (sample_count cs (drop (begin_ptr shape') mem))"
        by simp
      then show ?thesis
        using ih by (simp add: emplace_back_def)
    qed
  qed
qed

lemma decode_samples:
  assumes "decode cs encoded precision = Some (Inr c)"
  shows "sample_count cs encoded = Some (2 * length (elems c))"
proof -
  define shape where "shape = Shape5Decoder_init 0 (length encoded) precision"
  have s: "begin_ptr shape = 0" "end_ptr shape = length encoded"
    by (simp_all add: shape_def Shape5Decoder_init_def)
  have "decode_loop emplace_back cs encoded shape (reserve vector_empty (length encoded div 4))
      = Some (Inr c)"
    using assms by (simp add: decode_def decode_vector_def shape_def)
  from decode_loop_samples [OF _ _ this] s show ?thesis
    by (simp add: reserve_def vector_empty_def)
qed

lemma decode_returns:
  "\<exists>r. decode cs encoded precision = Some r \<and>
     (case r of Inl err \<Rightarrow> err = bad_encoded_polyline | Inr c \<Rightarrow> True)"
  unfolding decode_def decode_vector_def
  by (rule decode_loop_returns) (simp add: Shape5Decoder_init_def)



lemma next5_fields:
  "next5 cs mem shape previous = Some (r, shape') \<Longrightarrow>
   lat shape' = lat shape \<and> lon shape' = lon shape \<and> prec shape' = prec shape \<and>
   end_ptr shape' = end_ptr shape"
  by (auto simp add: next5_def split: option.splits sum.splits)

section \<open>The encoder's loop\<close>

lemma encode_loop_step:
  "encode_loop (p # points) precision last_lon last_lat out =
     encode_loop points precision (scaled precision (fst p)) (scaled precision (snd p))
       (serialize (scaled precision (fst p) - last_lon)
          (serialize (scaled precision (snd p) - last_lat) out))"
  by (simp only: encode_loop.simps Let_def scaled_def)

lemma encode_loop_spec:
  "encode_loop points precision last_lon last_lat out =
     out @ concat (map2 delta_samples
       (map (\<lambda>p. (scaled precision (fst p), scaled precision (snd p))) points)
       ((last_lon, last_lat) #
        map (\<lambda>p. (scaled precision (fst p), scaled precision (snd p))) points))"
proof (induction points arbitrary: last_lon last_lat out)
  case Nil
  show ?case by simp
next
  case (Cons p points)
  have "serialize (scaled precision (fst p) - last_lon)
          (serialize (scaled precision (snd p) - last_lat) out) =
        out @ delta_samples (scaled precision (fst p), scaled precision (snd p)) (last_lon, last_lat)"
    using serialize_append [of "scaled precision (fst p) - last_lon"
        "serialize (scaled precision (snd p) - last_lat) out"]
      serialize_append [of "scaled precision (snd p) - last_lat" out]
    by (simp add: delta_samples_def)
  then show ?case
    using Cons.IH [of "scaled precision (fst p)" "scaled precision (snd p)"]
    by (subst encode_loop_step) (simp del: encode_loop.simps)
qed

lemma encode_loop_append:
  "encode_loop points precision last_lon last_lat out =
     out @ encode_loop points precision last_lon last_lat []"
  using encode_loop_spec [of points precision last_lon last_lat out]
    encode_loop_spec [of points precision last_lon last_lat "[]"]
  by simp


lemma round_c_int: "\<exists>k :: int. round_c x = of_int k \<and> \<bar>of_int k - x\<bar> \<le> 1 / 2"
proof (cases "x < 0")
  case True
  have "\<bar>of_int (- \<lfloor>- x + 1 / 2\<rfloor>) - x\<bar> \<le> 1 / 2"
    by linarith
  then show ?thesis
    using True by (intro exI [of _ "- \<lfloor>- x + 1 / 2\<rfloor>"]) (simp add: round_c_def)
next
  case False
  have "\<bar>of_int \<lfloor>x + 1 / 2\<rfloor> - x\<bar> \<le> 1 / 2"
    by linarith
  then show ?thesis
    using False by (intro exI [of _ "\<lfloor>x + 1 / 2\<rfloor>"]) (simp add: round_c_def)
qed

lemma round_c_half: "round_c (real n + 1 / 2) = real n + 1" "round_c (- real n - 1 / 2) = - real n - 1"
proof -
  have "\<lfloor>real n + 1 / 2 + 1 / 2\<rfloor> = int n + 1"
    by linarith
  then show "round_c (real n + 1 / 2) = real n + 1"
    by (simp add: round_c_def)
  have "\<lfloor>- (- real n - 1 / 2) + 1 / 2\<rfloor> = int n + 1"
    by linarith
  moreover have "- real n - 1 / 2 < 0"
    by simp
  ultimately show "round_c (- real n - 1 / 2) = - real n - 1"
    by (simp add: round_c_def)
qed

section \<open>Decoding what the encoder wrote\<close>












section \<open>The continuation flag and complete samples\<close>

lemma format_byte_value:
  fixes c :: cchar
  assumes "63 \<le> c" and "c \<le> 126"
  shows "sint (char_to_int32 cs c - 63) = uint c - 63" and "63 \<le> uint c" and "uint c \<le> 126"
proof -
  have u: "63 \<le> unat c" "unat c \<le> 126"
    using assms by (simp_all add: word_le_nat_alt)
  have ui: "uint c = int (unat c)"
    by (rule uint_nat)
  show uc: "63 \<le> uint c" "uint c \<le> 126"
    using u unfolding ui by linarith+
  have "c < 2 ^ 7"
    using u by (simp add: word_less_nat_alt)
  then have m: "c AND mask 7 = c"
    by (rule less_mask_eq)
  have b: "n < 7" if "bit c n" for n
  proof -
    have "bit (c AND mask 7) n"
      using that by (simp only: m)
    then show ?thesis
      by (simp add: bit_and_iff bit_mask_iff)
  qed
  have "(scast c :: int32) = ucast c"
    by (rule bit_word_eqI) (auto simp add: bit_simps min_def dest: b)
  then have e: "char_to_int32 cs c = ucast c"
    by (simp add: char_to_int32_def)
  have "sint (ucast c :: int32) = signed_take_bit 31 (uint c)"
    using signed_ucast_eq [where ?'a = int and ?'c = 32, of c] by simp
  also have "\<dots> = uint c"
    using uc by (intro signed_take_bit_int_eq_self) simp_all
  finally have s: "sint (char_to_int32 cs c) = uint c"
    by (simp only: e)
  have "sint (char_to_int32 cs c - 63) =
      signed_take_bit 31 (sint (char_to_int32 cs c) - sint (63 :: int32))"
    using sint_word_diff [of "char_to_int32 cs c" 63] by simp
  also have "\<dots> = signed_take_bit 31 (uint c - 63)"
    by (simp add: s)
  also have "\<dots> = uint c - 63"
    using uc by (intro signed_take_bit_int_eq_self) simp_all
  finally show "sint (char_to_int32 cs c - 63) = uint c - 63" .
qed

lemma continuation_format:
  fixes c :: cchar
  assumes "63 \<le> c" and "c \<le> 126"
  shows "continuation cs c \<longleftrightarrow> 95 \<le> c" and "continuation cs c \<longleftrightarrow> bit (c - 63) 5"
proof -
  have u: "63 \<le> unat c" "unat c \<le> 126"
    using assms by (simp_all add: word_le_nat_alt)
  have "continuation cs c \<longleftrightarrow> 95 \<le> uint c"
    using format_byte_value(1) [OF assms, of cs] by (simp add: continuation_def word_sle_eq)
  then show a: "continuation cs c \<longleftrightarrow> 95 \<le> c"
    by (simp add: word_le_def)
  have s: "unat (c - 63) = unat c - 63"
    using u(1) by (simp add: unat_sub word_le_nat_alt)
  have x: "unat (c - 63) < 64" "32 \<le> unat (c - 63) \<longleftrightarrow> 95 \<le> unat c"
    using u unfolding s by linarith+
  have "bit (c - 63) 5 \<longleftrightarrow> bit (unat (c - 63)) 5"
    by (simp add: bit_unsigned_iff)
  also have "\<dots> \<longleftrightarrow> odd (unat (c - 63) div 32)"
    by (simp add: bit_iff_odd_drop_bit drop_bit_eq_div)
  also have "\<dots> \<longleftrightarrow> 32 \<le> unat (c - 63)"
  proof -
    have "unat (c - 63) div 32 < 2"
      using x(1) by simp
    then have "unat (c - 63) div 32 = 0 \<or> unat (c - 63) div 32 = 1"
      by linarith
    then show ?thesis
      by (auto simp add: div_eq_0_iff)
  qed
  finally show "continuation cs c \<longleftrightarrow> bit (c - 63) 5"
    using a x(2) by (simp add: word_le_nat_alt)
qed

lemma sample_count_zero: "sample_count cs xs = Some 0 \<Longrightarrow> xs = []"
  by (induction xs) (auto split: if_splits)

lemma next_loop_complete:
  "b \<le> length mem \<Longrightarrow> sample_count cs (drop b mem) = Some (Suc n) \<Longrightarrow>
   \<exists>v b'. next_loop cs mem (length mem) b sh res = Some (Inr v, b') \<and> b < b' \<and>
     b' \<le> length mem \<and> sample_count cs (drop b' mem) = Some n"
proof (induction "length mem - b" arbitrary: b sh res rule: less_induct)
  case less
  have "drop b mem \<noteq> []"
    using less.prems(2) by auto
  then have lt: "b < length mem"
    by simp
  then have d: "drop b mem = mem ! b # drop (Suc b) mem"
    by (simp add: Cons_nth_drop_Suc)
  show ?case
  proof (cases "continuation cs (mem ! b)")
    case True
    then have c: "0x20 \<le>s char_to_int32 cs (mem ! b) - 63"
      by (simp add: continuation_def)
    have sc: "sample_count cs (drop (b + 1) mem) = Some (Suc n)"
      using less.prems(2) True unfolding d by (simp split: if_splits)
    have m: "length mem - (b + 1) < length mem - b" "b + 1 \<le> length mem"
      using lt by simp_all
    from less.hyps [OF m sc, of "sh + 5"
        "res OR push_bit sh ((char_to_int32 cs (mem ! b) - 63) AND 0x1f)"]
    obtain v b' where
      "next_loop cs mem (length mem) (b + 1) (sh + 5)
        (res OR push_bit sh ((char_to_int32 cs (mem ! b) - 63) AND 0x1f)) = Some (Inr v, b')"
      "b + 1 < b'" "b' \<le> length mem" "sample_count cs (drop b' mem) = Some n"
      by blast
    then show ?thesis
      using lt c by (subst next_loop.simps) simp
  next
    case False
    then have c: "\<not> 0x20 \<le>s char_to_int32 cs (mem ! b) - 63"
      by (simp add: continuation_def)
    have "sample_count cs (drop (b + 1) mem) = Some n"
      using less.prems(2) False unfolding d by simp
    then show ?thesis
      using lt c by (subst next_loop.simps) simp
  qed
qed

lemma next5_complete:
  assumes "begin_ptr shape \<le> end_ptr shape" and "end_ptr shape = length mem"
    and "sample_count cs (drop (begin_ptr shape) mem) = Some (Suc n)"
  shows "\<exists>v b'. next5 cs mem shape previous = Some (Inr v, shape\<lparr>begin_ptr := b'\<rparr>) \<and>
    begin_ptr shape < b' \<and> b' \<le> length mem \<and> sample_count cs (drop b' mem) = Some n"
proof -
  from next_loop_complete [OF _ assms(3), of 0 0] assms(1,2)
  obtain v b' where "next_loop cs mem (length mem) (begin_ptr shape) 0 0 = Some (Inr v, b')"
    "begin_ptr shape < b'" "b' \<le> length mem" "sample_count cs (drop b' mem) = Some n"
    by auto
  then show ?thesis
    by (auto simp add: next5_def assms(2))
qed

lemma pop_complete:
  assumes "begin_ptr shape \<le> end_ptr shape" and "end_ptr shape = length mem"
    and "sample_count cs (drop (begin_ptr shape) mem) = Some (Suc (Suc n))"
  shows "\<exists>p shape'. pop cs mem shape = Some (Inr p, shape') \<and>
    begin_ptr shape' \<le> end_ptr shape' \<and> end_ptr shape' = length mem \<and>
    sample_count cs (drop (begin_ptr shape') mem) = Some n"
proof -
  from next5_complete [OF assms, of "lat shape"]
  obtain v b1 where n1: "next5 cs mem shape (lat shape) = Some (Inr v, shape\<lparr>begin_ptr := b1\<rparr>)"
    "b1 \<le> length mem" "sample_count cs (drop b1 mem) = Some (Suc n)"
    by blast
  define shape1 where "shape1 = shape\<lparr>begin_ptr := b1\<rparr>\<lparr>lat := v\<rparr>"
  have s1: "begin_ptr shape1 = b1" "end_ptr shape1 = length mem" "lon shape1 = lon shape"
    by (simp_all add: shape1_def assms(2))
  from next5_complete [of shape1 mem cs n "lon shape"] n1(2,3)
  obtain w b2 where n2: "next5 cs mem shape1 (lon shape) = Some (Inr w, shape1\<lparr>begin_ptr := b2\<rparr>)"
    "b2 \<le> length mem" "sample_count cs (drop b2 mem) = Some n"
    by (auto simp add: s1)
  show ?thesis
    using n1 n2 by (simp add: pop_def shape1_def assms(2))
qed

lemma decode_loop_complete:
  "begin_ptr shape \<le> end_ptr shape \<Longrightarrow> end_ptr shape = length mem \<Longrightarrow>
   sample_count cs (drop (begin_ptr shape) mem) = Some (2 * k) \<Longrightarrow>
   \<exists>c'. decode_loop emplace cs mem shape c = Some (Inr c')"
proof (induction k arbitrary: shape c)
  case 0
  have "drop (begin_ptr shape) mem = []"
    using "0.prems"(3) by (intro sample_count_zero [of cs]) simp
  then have "empty shape"
    using "0.prems"(1,2) by (simp add: empty_def)
  then show ?case
    by (simp add: decode_loop_empty)
next
  case (Suc k)
  have "drop (begin_ptr shape) mem \<noteq> []"
    using Suc.prems(3) by auto
  then have ne: "\<not> empty shape"
    using Suc.prems(2) by (auto simp add: empty_def)
  from pop_complete [OF Suc.prems(1,2), of cs "2 * k"] Suc.prems(3)
  obtain p shape' where p: "pop cs mem shape = Some (Inr p, shape')"
    "begin_ptr shape' \<le> end_ptr shape'" "end_ptr shape' = length mem"
    "sample_count cs (drop (begin_ptr shape') mem) = Some (2 * k)"
    by auto
  from Suc.IH [OF p(2,3,4), of "emplace c p"] show ?case
    using p(1) ne by (simp add: decode_loop_step)
qed

lemma decode_complete:
  assumes "sample_count cs encoded = Some (2 * k)"
  shows "\<exists>c. decode cs encoded precision = Some (Inr c)"
  unfolding decode_def decode_vector_def
  using assms by (intro decode_loop_complete [where k = k]) (simp_all add: Shape5Decoder_init_def)

section \<open>The claims\<close>








text \<open>C3: \<open>encode\<close> takes the points in order and writes, for each, the sample of the
  latitude delta and then the sample of the longitude delta, each delta being the scaled
  coordinate minus the scaled coordinate of the point before (zero before the first):
  \<open>encode\<close> is \<open>encode_spec\<close>. The two points \<open>(0, 0)\<close>, \<open>(0.00001, 0.00002)\<close> at precision
  \<open>1e5\<close> give the samples of 0, 0 and then of the deltas 2 (latitude) and 1 (longitude).
  The rounding is to a nearest integer, and a half goes away from zero.\<close>

theorem encode_deltas:
  "encode points precision = encode_spec points precision \<and>
   encode [(0, 0), (1 / 100000, 2 / 100000)] 100000 =
     serialize 0 [] @ serialize 0 [] @ serialize 2 [] @ serialize 1 [] \<and>
   encode [(0, 0), (1 / 100000, 2 / 100000)] 100000 = [63, 63, 67, 65] \<and>
   (\<exists>k :: int. round_c x = of_int k \<and> \<bar>of_int k - x\<bar> \<le> 1 / 2) \<and>
   round_c (real n + 1 / 2) = real n + 1 \<and> round_c (- real n - 1 / 2) = - real n - 1"
proof -
  have a: "encode points precision = encode_spec points precision"
    using encode_loop_spec [of points precision 0 0 "[]"]
    by (simp add: encode_def encode_spec_def Let_def)
  have b: "encode [(0, 0), (1 / 100000, 2 / 100000)] 100000 = [63, 63, 67, 65]"
    by code_simp
  have c: "serialize 0 [] @ serialize 0 [] @ serialize 2 [] @ serialize 1 [] = [63, 63, 67, 65]"
    by code_simp
  show ?thesis
    using a b c round_c_int [of x] round_c_half [of n] by simp
qed

text \<open>C4: when every byte from the cursor to the end of the buffer carries the
  continuation flag, \<open>next\<close> and \<open>pop\<close> throw the runtime error "Bad encoded polyline" with
  the cursor at the end and return no point; and \<open>decode\<close> of any non-empty buffer whose
  last byte carries the continuation flag (so that its last sample is not closed) throws
  that error and returns no container. The flag is the decoder's test
  \<^verbatim>\<open>byte >= 0x20\<close>; on the bytes of the format, 63 to 126, it is bit \<open>0x20\<close> of the byte
  less 63, set exactly from 95 on.\<close>

theorem truncated_sample_throws:
  "(begin_ptr shape \<le> end_ptr shape \<and>
    (\<forall>i. begin_ptr shape \<le> i \<and> i < end_ptr shape \<longrightarrow> continuation cs (mem ! i)) \<longrightarrow>
      next5 cs mem shape previous =
        Some (Inl bad_encoded_polyline, shape\<lparr>begin_ptr := end_ptr shape\<rparr>) \<and>
      pop cs mem shape = Some (Inl bad_encoded_polyline, shape\<lparr>begin_ptr := end_ptr shape\<rparr>)) \<and>
   (encoded \<noteq> [] \<and> continuation cs (last encoded) \<longrightarrow>
      decode cs encoded precision = Some (Inl bad_encoded_polyline)) \<and>
   (63 \<le> c \<and> c \<le> 126 \<longrightarrow>
      (continuation cs c \<longleftrightarrow> bit (c - 63) 5) \<and> (continuation cs c \<longleftrightarrow> 95 \<le> c))"
proof (intro conjI impI)
  assume a: "begin_ptr shape \<le> end_ptr shape \<and>
    (\<forall>i. begin_ptr shape \<le> i \<and> i < end_ptr shape \<longrightarrow> continuation cs (mem ! i))"
  then show "next5 cs mem shape previous =
        Some (Inl bad_encoded_polyline, shape\<lparr>begin_ptr := end_ptr shape\<rparr>)"
    by (intro next5_all_continue) simp_all
  from a show "pop cs mem shape =
      Some (Inl bad_encoded_polyline, shape\<lparr>begin_ptr := end_ptr shape\<rparr>)"
    by (intro pop_all_continue) simp_all
next
  assume b: "encoded \<noteq> [] \<and> continuation cs (last encoded)"
  from decode_returns [of cs encoded precision]
  obtain r where r: "decode cs encoded precision = Some r"
    "case r of Inl err \<Rightarrow> err = bad_encoded_polyline | Inr c \<Rightarrow> True"
    by blast
  show "decode cs encoded precision = Some (Inl bad_encoded_polyline)"
  proof (cases r)
    case (Inl err)
    then show ?thesis
      using r by simp
  next
    case (Inr c)
    then have "sample_count cs encoded = Some (2 * length (elems c))"
      using r(1) by (intro decode_samples) simp
    then have "encoded = [] \<or> \<not> continuation cs (last encoded)"
      by (rule sample_count_last)
    then show ?thesis
      using b by simp
  qed
next
  assume "63 \<le> c \<and> c \<le> 126"
  then show "continuation cs c \<longleftrightarrow> bit (c - 63) 5"
    by (intro continuation_format) simp_all
next
  assume "63 \<le> c \<and> c \<le> 126"
  then show "continuation cs c \<longleftrightarrow> 95 \<le> c"
    by (intro continuation_format) simp_all
qed

theorem truncated_sample_throws_witness:
  "([95 :: cchar] \<noteq> [] \<and> continuation True (last [95])) \<and>
   decode True [95] 1 = Some (Inl (runtime_error ''Bad encoded polyline'')) \<and>
   pop True [95] (Shape5Decoder_init 0 1 1) =
     Some (Inl (runtime_error ''Bad encoded polyline''),
           \<lparr>begin_ptr = 1, end_ptr = 1, lat = 0, lon = 0, prec = 1\<rparr>)"
proof -
  have h: "[95 :: cchar] \<noteq> [] \<and> continuation True (last [95])"
    by (simp add: continuation_def char_to_int32_def word_sle_eq)
  have i: "begin_ptr (Shape5Decoder_init 0 1 1) \<le> end_ptr (Shape5Decoder_init 0 1 1) \<and>
    (\<forall>i. begin_ptr (Shape5Decoder_init 0 1 1) \<le> i \<and> i < end_ptr (Shape5Decoder_init 0 1 1)
       \<longrightarrow> continuation True ([95] ! i))"
    by (simp add: Shape5Decoder_init_def continuation_def char_to_int32_def word_sle_eq)
  from truncated_sample_throws [of "Shape5Decoder_init 0 1 1" True "[95]" 0 "[95]" 1 95] h i
  show ?thesis
    by (simp add: Shape5Decoder_init_def bad_encoded_polyline_def)
qed

text \<open>C5: for every integer \<open>d\<close> from -1,000,000 to 1,000,000, the encoder's zig-zag
  transform (line 206 of \<open>serialize\<close>) followed by the decoder's inverse (the last line of
  \<open>next\<close>) returns \<open>d\<close> unchanged.\<close>

theorem zigzag_roundtrip:
  fixes d :: int32
  assumes "- 1000000 \<le> sint d" and "sint d \<le> 1000000"
  shows "unzigzag (zigzag d) = d"
proof -
  have "- (2 ^ 30) \<le> sint d" "sint d < 2 ^ 30"
    using assms by simp_all
  then have "bit d 30 = bit d 31"
    by (rule small_bits)
  then show ?thesis
    by (rule unzigzag_zigzag_bits)
qed

theorem zigzag_roundtrip_witness:
  "(- 1000000 \<le> sint (- 1000000 :: int32) \<and> sint (- 1000000 :: int32) \<le> 1000000) \<and>
   unzigzag (zigzag (- 1000000)) = (- 1000000 :: int32) \<and>
   zigzag (- 1000000) = (1999999 :: int32)"
proof -
  have h: "- 1000000 \<le> sint (- 1000000 :: int32)" "sint (- 1000000 :: int32) \<le> 1000000"
    by simp_all
  have z: "zigzag (- 1000000) = (1999999 :: int32)"
    by (simp add: zigzag_def word_sless_alt)
  show ?thesis
    using h z zigzag_roundtrip [OF h] by simp
qed

text \<open>C6, as stated for every delta the encoder can be given, fails: on the delta
  \<open>-1073741857\<close>, whose zig-zag form is a negative \<^verbatim>\<open>int\<close>, the signed test
  \<^verbatim>\<open>number >= 0x20\<close> of \<open>serialize\<close> is false at once and the one byte written is 128,
  where the format has seven bytes.\<close>

theorem serialize_sample_counterexample:
  "sint (- 1073741857 :: int32) = - 1073741857 \<and>
   serialize (- 1073741857) [] = [128] \<and>
   \<not> (128 :: cchar) \<le> 126 \<and>
   varint5 (zigzag (- 1073741857)) = [96, 97, 95, 95, 95, 95, 65]"
  by (simp add: serialize_def zigzag_def word_sless_alt serialize_loop.simps word_sle_eq
      int32_to_char_def varint5.simps word_le_nat_alt)

text \<open>C6, amended: for every delta \<open>d\<close> with \<open>-2^30 \<le> d < 2^30\<close>, \<open>serialize\<close> appends
  to the output exactly the bytes of the format for the zig-zag form of \<open>d\<close> (\<open>varint5\<close>:
  one byte per 5-bit chunk, least significant chunk first, the continuation bit on every
  byte but the last, each shifted by 63). Every such byte lies in 63..126, every byte but
  the last is at least 95 and the last at most 94, and the chunks, read least
  significant first, are the number \<open>2 * d\<close> for \<open>d \<ge> 0\<close> and \<open>- 2 * d - 1\<close> for \<open>d < 0\<close>.\<close>

theorem serialize_sample:
  fixes d :: int32
  assumes "- (2 ^ 30) \<le> sint d" and "sint d < 2 ^ 30"
  shows "serialize d out = out @ varint5 (zigzag d) \<and>
    (\<forall>b \<in> set (varint5 (zigzag d)). 63 \<le> b \<and> b \<le> 126) \<and>
    (\<forall>b \<in> set (butlast (varint5 (zigzag d))). 95 \<le> b) \<and>
    last (varint5 (zigzag d)) \<le> 94 \<and>
    int (chunk_value (varint5 (zigzag d))) = (if sint d < 0 then - 2 * sint d - 1 else 2 * sint d)"
proof -
  have "bit d 30 = bit d 31"
    using assms by (rule small_bits)
  then have "\<not> bit (zigzag d) 31"
    by (rule zigzag_nonneg)
  then have "serialize d out = out @ varint5 (zigzag d)"
    by (rule serialize_varint5)
  moreover have "int (chunk_value (varint5 (zigzag d))) =
      (if sint d < 0 then - 2 * sint d - 1 else 2 * sint d)"
    using zigzag_value [OF assms] by (simp only: chunk_value_varint5)
  ultimately show ?thesis
    using varint5_printable varint5_flags [of "zigzag d"] by blast
qed

theorem serialize_sample_witness:
  "(- (2 ^ 30) \<le> sint (- 1000000 :: int32) \<and> sint (- 1000000 :: int32) < 2 ^ 30) \<and>
   serialize (- 1000000) [] = varint5 (zigzag (- 1000000)) \<and>
   varint5 (zigzag (- 1000000)) = [126, 98, 96, 124, 64]"
proof -
  have h: "- (2 ^ 30) \<le> sint (- 1000000 :: int32)" "sint (- 1000000 :: int32) < 2 ^ 30"
    by simp_all
  have v: "varint5 (zigzag (- 1000000)) = [126, 98, 96, 124, 64]"
    by (simp add: zigzag_def word_sless_alt varint5.simps word_le_nat_alt)
  show ?thesis
    using h v serialize_sample [OF h, of "[]", THEN conjunct1] by simp
qed

text \<open>C7, as stated, fails in its second half: the encoded form of the point
  \<open>(lon = -122.483696, lat = 38.58)\<close> at five digits is not the string \<open>_p~iF~ps|U\<close>.\<close>

theorem single_point_example_counterexample:
  "encode [(- 122.483696, 38.58)] 100000 \<noteq> map of_char ''_p~iF~ps|U''"
  by code_simp

text \<open>C7, amended: the encoded form of \<open>[(lon = -122.483696, lat = 38.58)]\<close> at precision
  \<open>1e5\<close> is the string \<open>_dnjFbrqjV\<close>, and decoding it at \<open>1e-5\<close> gives the point
  \<open>(-122.4837, 38.58)\<close>, within \<open>1e-5\<close> of the original; the string \<open>_p~iF~ps|U\<close> is the
  encoded form of \<open>[(lon = -120.2, lat = 38.5)]\<close>.\<close>

theorem single_point_example:
  "encode [(- 122.483696, 38.58)] 100000 = map of_char ''_dnjFbrqjV'' \<and>
   decode cs (encode [(- 122.483696, 38.58)] 100000) (1 / 100000) =
     Some (Inr \<lparr>elems = [(- 122.4837, 38.58)], capacity = 2\<rparr>) \<and>
   \<bar>- 122.4837 - (- 122.483696)\<bar> \<le> (1 / 100000 :: real) \<and>
   \<bar>38.58 - 38.58\<bar> \<le> (1 / 100000 :: real) \<and>
   encode [(- 120.2, 38.5)] 100000 = map of_char ''_p~iF~ps|U''"
proof -
  have a: "encode [(- 122.483696, 38.58)] 100000 = map of_char ''_dnjFbrqjV''"
    by code_simp
  have t: "decode True (encode [(- 122.483696, 38.58)] 100000) (1 / 100000) =
     Some (Inr \<lparr>elems = [(- 122.4837, 38.58)], capacity = 2\<rparr>)"
    by code_simp
  have f: "decode False (encode [(- 122.483696, 38.58)] 100000) (1 / 100000) =
     Some (Inr \<lparr>elems = [(- 122.4837, 38.58)], capacity = 2\<rparr>)"
    by code_simp
  have b: "decode cs (encode [(- 122.483696, 38.58)] 100000) (1 / 100000) =
     Some (Inr \<lparr>elems = [(- 122.4837, 38.58)], capacity = 2\<rparr>)"
    using t f by (cases cs) (simp_all only:)
  have c: "\<bar>- 122.4837 - (- 122.483696)\<bar> \<le> (1 / 100000 :: real)"
    by simp
  have d: "\<bar>38.58 - 38.58\<bar> \<le> (1 / 100000 :: real)"
    by simp
  have e: "encode [(- 120.2, 38.5)] 100000 = map of_char ''_p~iF~ps|U''"
    by code_simp
  from a b c d e show ?thesis
    by blast
qed

text \<open>C8: for every encoded buffer, the specialisation of \<open>decode\<close> for \<^verbatim>\<open>std::vector\<close>,
  which reserves \<open>length / 4\<close> elements first, and the implementation for the other
  containers, which reserves nothing, yield the same sequence of points, or both throw the
  same exception: the reserved capacity changes no decoded value.\<close>

theorem decode_capacity_irrelevant:
  "decode_nonvector cs mem encoded len precision =
     map_option (map_sum id elems) (decode_vector cs mem encoded len precision)"
proof -
  have "elems (reserve (vector_empty :: point vector) (len div 4)) = []"
    by (simp add: reserve_def vector_empty_def)
  moreover have "begin_ptr (Shape5Decoder_init encoded len precision)
      \<le> end_ptr (Shape5Decoder_init encoded len precision)"
    by (simp add: Shape5Decoder_init_def)
  ultimately show ?thesis
    using decode_loop_containers [of "Shape5Decoder_init encoded len precision" cs mem
        "reserve vector_empty (len div 4)"]
    by (simp add: decode_nonvector_def decode_vector_def)
qed

text \<open>C9: when the latitude sample of a \<open>pop\<close> is complete and ends exactly at the end of
  the buffer, \<open>pop\<close> throws the same runtime error as for a sample cut short and returns no
  point; whenever \<open>pop\<close> throws after a decoded latitude sample, the latitude accumulator
  it leaves is already the advanced one; and when \<open>decode\<close> returns a container of \<open>n\<close>
  points, the buffer consists of exactly \<open>2 * n\<close> complete samples. Conversely \<open>decode\<close>
  returns a container on every buffer of an even number of complete samples.\<close>

theorem missing_longitude_throws:
  "(next5 cs mem shape (lat shape) = Some (Inr v, shape1) \<and> begin_ptr shape1 = end_ptr shape1 \<longrightarrow>
      pop cs mem shape = Some (Inl bad_encoded_polyline, shape1\<lparr>lat := v\<rparr>)) \<and>
   (next5 cs mem shape (lat shape) = Some (Inr v, shape1) \<and>
    pop cs mem shape = Some (Inl e, shape') \<longrightarrow> lat shape' = v) \<and>
   (decode cs encoded precision = Some (Inr c) \<longrightarrow>
      sample_count cs encoded = Some (2 * length (elems c))) \<and>
   (sample_count cs encoded = Some (2 * k) \<longrightarrow>
      (\<exists>c'. decode cs encoded precision = Some (Inr c')))"
proof (intro conjI impI)
  assume a: "next5 cs mem shape (lat shape) = Some (Inr v, shape1) \<and>
    begin_ptr shape1 = end_ptr shape1"
  have "next_loop cs mem (end_ptr shape1) (begin_ptr shape1) 0 0 =
      Some (Inl bad_encoded_polyline, begin_ptr shape1)"
    using a by (subst next_loop.simps) simp
  then have "next5 cs mem (shape1\<lparr>lat := v\<rparr>) (lon shape1) =
      Some (Inl bad_encoded_polyline, shape1\<lparr>lat := v\<rparr>)"
    by (simp add: next5_def)
  then show "pop cs mem shape = Some (Inl bad_encoded_polyline, shape1\<lparr>lat := v\<rparr>)"
    using a by (simp add: pop_def)
next
  assume b: "next5 cs mem shape (lat shape) = Some (Inr v, shape1) \<and>
    pop cs mem shape = Some (Inl e, shape')"
  then have "next5 cs mem (shape1\<lparr>lat := v\<rparr>) (lon shape1) = Some (Inl e, shape')"
    by (auto simp add: pop_def split: option.splits sum.splits)
  from next5_fields [OF this] show "lat shape' = v"
    by simp
next
  assume "decode cs encoded precision = Some (Inr c)"
  then show "sample_count cs encoded = Some (2 * length (elems c))"
    by (rule decode_samples)
next
  assume "sample_count cs encoded = Some (2 * k)"
  then show "\<exists>c'. decode cs encoded precision = Some (Inr c')"
    by (rule decode_complete)
qed

lemma next5_eval:
  "next5 True [65] (Shape5Decoder_init 0 1 1) 0 =
     Some (Inr 1, \<lparr>begin_ptr = 1, end_ptr = 1, lat = 0, lon = 0, prec = 1\<rparr>)"
  by code_simp

lemma decode_eval:
  "decode True [63, 63, 67, 65] 1 = Some (Inr \<lparr>elems = [(0, 0), (1, 2)], capacity = 2\<rparr>)"
  by code_simp

theorem missing_longitude_throws_witness:
  "pop True [65] (Shape5Decoder_init 0 1 1) =
     Some (Inl (runtime_error ''Bad encoded polyline''),
           \<lparr>begin_ptr = 1, end_ptr = 1, lat = 1, lon = 0, prec = 1\<rparr>) \<and>
   decode True [63, 63, 67, 65] 1 = Some (Inr \<lparr>elems = [(0, 0), (1, 2)], capacity = 2\<rparr>) \<and>
   sample_count True [63, 63, 67, 65] = Some 4 \<and>
   sample_count True [65] = Some 1"
proof -
  have a: "next5 True [65] (Shape5Decoder_init 0 1 1) (lat (Shape5Decoder_init 0 1 1)) =
      Some (Inr 1, \<lparr>begin_ptr = 1, end_ptr = 1, lat = 0, lon = 0, prec = 1\<rparr>) \<and>
    begin_ptr \<lparr>begin_ptr = 1, end_ptr = 1, lat = 0 :: int32, lon = 0 :: int32, prec = 1 :: real\<rparr> =
    end_ptr \<lparr>begin_ptr = 1, end_ptr = 1, lat = 0 :: int32, lon = 0 :: int32, prec = 1 :: real\<rparr>"
    using next5_eval by (simp add: Shape5Decoder_init_def)
  have s: "sample_count True [65] = Some 1"
    by (simp add: continuation_def char_to_int32_def word_sle_eq)
  from missing_longitude_throws [of True "[65]" "Shape5Decoder_init 0 1 1" 1
      "\<lparr>begin_ptr = 1, end_ptr = 1, lat = 0, lon = 0, prec = 1\<rparr>"
      "runtime_error ''Bad encoded polyline''"
      "\<lparr>begin_ptr = 1, end_ptr = 1, lat = 1, lon = 0, prec = 1\<rparr>" "[63, 63, 67, 65]" 1
      "\<lparr>elems = [(0, 0), (1, 2)], capacity = 2\<rparr>" 2] a decode_eval s
  show ?thesis
    by (simp add: bad_encoded_polyline_def)
qed

text \<open>C10: in every state of a decoder constructed over a buffer of \<open>sz\<close> bytes, the
  cursor is at most the end, the end is where the constructor put it, \<open>empty\<close> holds
  exactly when the cursor equals the end, a further \<open>pop\<close> returns or throws with the
  cursor moved forward and still at most the end, and that \<open>pop\<close> reads no byte outside
  the range from the cursor to the end: it does the same on every memory that agrees with
  this one there.\<close>

theorem cursor_within_buffer:
  assumes "reachable cs mem start sz precision shape"
  shows "begin_ptr shape \<le> end_ptr shape \<and> end_ptr shape = start + sz \<and>
     (empty shape \<longleftrightarrow> begin_ptr shape = end_ptr shape) \<and>
     (\<exists>r shape'. pop cs mem shape = Some (r, shape') \<and>
        begin_ptr shape \<le> begin_ptr shape' \<and> begin_ptr shape' \<le> end_ptr shape' \<and>
        end_ptr shape' = end_ptr shape) \<and>
     (\<forall>mem'. (\<forall>i. begin_ptr shape \<le> i \<and> i < end_ptr shape \<longrightarrow> mem' ! i = mem ! i) \<longrightarrow>
        pop cs mem' shape = pop cs mem shape)"
proof -
  have inv: "begin_ptr shape \<le> end_ptr shape" "end_ptr shape = start + sz"
    using reachable_invariant [OF assms] by simp_all
  have c: "empty shape \<longleftrightarrow> begin_ptr shape = end_ptr shape"
    by (simp add: empty_def)
  from pop_returns [OF inv(1), of cs mem]
  have d: "\<exists>r shape'. pop cs mem shape = Some (r, shape') \<and>
        begin_ptr shape \<le> begin_ptr shape' \<and> begin_ptr shape' \<le> end_ptr shape' \<and>
        end_ptr shape' = end_ptr shape"
    using inv(1) by (fastforce split: sum.splits)
  have e: "\<forall>mem'. (\<forall>i. begin_ptr shape \<le> i \<and> i < end_ptr shape \<longrightarrow> mem' ! i = mem ! i) \<longrightarrow>
        pop cs mem' shape = pop cs mem shape"
  proof (intro allI impI)
    fix mem'
    assume "\<forall>i. begin_ptr shape \<le> i \<and> i < end_ptr shape \<longrightarrow> mem' ! i = mem ! i"
    then show "pop cs mem' shape = pop cs mem shape"
      using inv(1) by (intro pop_cong) simp_all
  qed
  show ?thesis
    using inv c d e by blast
qed

lemma pop_eval:
  "pop True [65, 67, 95] (Shape5Decoder_init 0 3 1) =
     Some (Inr (2, 1), \<lparr>begin_ptr = 2, end_ptr = 3, lat = 1, lon = 2, prec = 1\<rparr>)"
  by code_simp

theorem cursor_within_buffer_witness:
  "reachable True [65, 67, 95] 0 3 1 \<lparr>begin_ptr = 2, end_ptr = 3, lat = 1, lon = 2, prec = 1\<rparr> \<and>
   begin_ptr \<lparr>begin_ptr = 2, end_ptr = 3, lat = 1, lon = 2, prec = 1 :: real\<rparr>
     \<le> end_ptr \<lparr>begin_ptr = 2, end_ptr = 3, lat = 1, lon = 2, prec = 1 :: real\<rparr> \<and>
   pop True [65, 67, 95] \<lparr>begin_ptr = 2, end_ptr = 3, lat = 1, lon = 2, prec = 1\<rparr> =
     Some (Inl bad_encoded_polyline, \<lparr>begin_ptr = 3, end_ptr = 3, lat = 1, lon = 2, prec = 1\<rparr>)"
proof -
  have r: "reachable True [65, 67, 95] 0 3 1
      \<lparr>begin_ptr = 2, end_ptr = 3, lat = 1, lon = 2, prec = 1\<rparr>"
    by (rule reachable.popped [OF reachable.constructed pop_eval])
  have p: "pop True [65, 67, 95] \<lparr>begin_ptr = 2, end_ptr = 3, lat = 1, lon = 2, prec = 1\<rparr> =
     Some (Inl bad_encoded_polyline, \<lparr>begin_ptr = 3, end_ptr = 3, lat = 1, lon = 2, prec = 1\<rparr>)"
    by code_simp
  show ?thesis
    using r p cursor_within_buffer [OF r, THEN conjunct1] by simp
qed

end
